theory Spec2Isabelle
  imports Main "HOL-Library.AList"
begin

section \<open>Strings, characters and the regular expressions of \<open>src/index.ts\<close>\<close>

text \<open>
  A JavaScript string is modelled as a \<^typ>\<open>string\<close>: the list of its code units, each
  below 256. Code units above \<open>0xFF\<close> (among them the line terminators U+2028 and
  U+2029 and the white space beyond U+00A0) are outside the model.

  Every regular expression of the source is translated by hand into the function that
  decides where it matches. A \<open>matcher\<close> looks at the text from the current position on and
  answers with the replacement text and the length of the match, as
  \<open>String.prototype.replace\<close> and \<open>replaceAll\<close> need them.
\<close>

abbreviation (input) bq :: char where "bq \<equiv> CHR 0x60"
abbreviation (input) sq :: char where "sq \<equiv> CHR 0x27"
abbreviation (input) dq :: char where "dq \<equiv> CHR 0x22"
abbreviation (input) LF :: char where "LF \<equiv> CHR 0x0A"
abbreviation (input) CR :: char where "CR \<equiv> CHR 0x0D"

definition is_line_terminator :: "char \<Rightarrow> bool" where
  \<comment> \<open>what \<open>.\<close> does not match\<close>
  "is_line_terminator c = (c = LF \<or> c = CR)"

definition is_space :: "char \<Rightarrow> bool" where
  \<comment> \<open>the class \<open>\s\<close>, which is also what \<open>trim\<close> strips\<close>
  "is_space c = (c = CHR 0x09 \<or> c = LF \<or> c = CHR 0x0B \<or> c = CHR 0x0C \<or> c = CR
                 \<or> c = CHR 0x20 \<or> c = CHR 0xA0)"

definition is_quote :: "char \<Rightarrow> bool" where
  \<comment> \<open>the class \<open>["']\<close>\<close>
  "is_quote c = (c = dq \<or> c = sq)"

definition is_var_char :: "char \<Rightarrow> bool" where
  \<comment> \<open>the class \<open>[^"'\s]\<close>\<close>
  "is_var_char c = (\<not> is_quote c \<and> \<not> is_space c)"

definition starts_with :: "string \<Rightarrow> string \<Rightarrow> bool" where
  "starts_with p s = (take (length p) s = p)"

definition ends_with :: "string \<Rightarrow> string \<Rightarrow> bool" where
  "ends_with p s = (length p \<le> length s \<and> drop (length s - length p) s = p)"

definition trim :: "string \<Rightarrow> string" where
  "trim s = rev (dropWhile is_space (rev (dropWhile is_space s)))"

definition digit :: "nat \<Rightarrow> char" where
  "digit d = ''0123456789'' ! d"

fun string_of_nat :: "nat \<Rightarrow> string" where
  "string_of_nat n =
     (if n < 10 then [digit n] else string_of_nat (n div 10) @ [digit (n mod 10)])"

fun join_sep :: "string \<Rightarrow> string list \<Rightarrow> string" where
  \<comment> \<open>\<open>xs.join(sep)\<close>\<close>
  "join_sep sep [] = []"
| "join_sep sep [x] = x"
| "join_sep sep (x # y # r) = x @ sep @ join_sep sep (y # r)"

subsection \<open>\<open>String.prototype.replace\<close> with a string pattern\<close>

fun indexOf :: "string \<Rightarrow> string \<Rightarrow> nat option" where
  \<comment> \<open>\<open>s.indexOf(pat)\<close>, with \<open>None\<close> for -1\<close>
  "indexOf pat [] = (if pat = [] then Some 0 else None)"
| "indexOf pat (c # cs) =
     (if starts_with pat (c # cs) then Some 0 else map_option Suc (indexOf pat cs))"

fun getSubstitution :: "string \<Rightarrow> string \<Rightarrow> string \<Rightarrow> string \<Rightarrow> string" where
  \<comment> \<open>the replacement text for a match without capture groups: \<open>$$\<close>, \<open>$&\<close>, \<open>$`\<close> and
      \<open>$'\<close> of the template are expanded, every other character is copied\<close>
  "getSubstitution matched pre post [] = []"
| "getSubstitution matched pre post [c] = [c]"
| "getSubstitution matched pre post (c # d # r) =
     (if c = CHR ''$'' \<and> d = CHR ''$'' then CHR ''$'' # getSubstitution matched pre post r
      else if c = CHR ''$'' \<and> d = CHR ''&'' then matched @ getSubstitution matched pre post r
      else if c = CHR ''$'' \<and> d = bq then pre @ getSubstitution matched pre post r
      else if c = CHR ''$'' \<and> d = sq then post @ getSubstitution matched pre post r
      else c # getSubstitution matched pre post (d # r))"

definition replace_str :: "string \<Rightarrow> string \<Rightarrow> string \<Rightarrow> string" where
  \<comment> \<open>\<open>s.replace(pat, template)\<close> for a string \<open>pat\<close>: the first occurrence only\<close>
  "replace_str s pat template =
     (case indexOf pat s of
        None \<Rightarrow> s
      | Some i \<Rightarrow>
          (let pre = take i s; post = drop (i + length pat) s
           in pre @ getSubstitution pat pre post template @ post))"

subsection \<open>Global replacement by a regular expression\<close>

type_synonym matcher = "string \<Rightarrow> (string \<times> nat) option"

fun replaceAll_re :: "matcher \<Rightarrow> string \<Rightarrow> string" where
  \<comment> \<open>left to right, the next search starting where the last match ended; every
      expression used below matches at least one character\<close>
  "replaceAll_re m [] = []"
| "replaceAll_re m (c # cs) =
     (case m (c # cs) of
        Some (rep, n) \<Rightarrow> rep @ replaceAll_re m (drop (n - 1) cs)
      | None \<Rightarrow> c # replaceAll_re m cs)"

fun matchAll_import :: "string \<Rightarrow> (string \<times> string) list" where
  \<comment> \<open>\<open>fileContents.matchAll(/import\(([^)]+)\)/g)\<close>: each match as the pair of
      \<open>match[0]\<close> and \<open>match[1]\<close>\<close>
  "matchAll_import [] = []"
| "matchAll_import (c # cs) =
     (if starts_with ''import('' (c # cs) then
        (let rest = drop 6 cs; arg = takeWhile (\<lambda>x. x \<noteq> CHR '')'') rest
         in if arg \<noteq> [] \<and> length arg < length rest
            then (''import('' @ arg @ '')'', arg) # matchAll_import (drop (Suc (length arg)) rest)
            else matchAll_import cs)
      else matchAll_import cs)"

fun lazy_until :: "string \<Rightarrow> string \<Rightarrow> nat option" where
  \<comment> \<open>\<open>.*?\<close> followed by the literal \<open>stop\<close>: the length of the shortest such match\<close>
  "lazy_until stop [] = (if stop = [] then Some 0 else None)"
| "lazy_until stop (c # cs) =
     (if starts_with stop (c # cs) then Some (length stop)
      else if is_line_terminator c then None
      else map_option Suc (lazy_until stop cs))"

definition block_comment :: matcher where
  \<comment> \<open>\<open>\/\*.*?\*\/\<close>\<close>
  "block_comment s =
     (if starts_with ''/*'' s then map_option (\<lambda>n. ([], 2 + n)) (lazy_until ''*/'' (drop 2 s))
      else None)"

definition line_comment :: matcher where
  \<comment> \<open>\<open>\/\/.*\n\<close>: the greedy \<open>.*\<close> stops at the first line terminator, which has to be
      the line feed\<close>
  "line_comment s =
     (if starts_with ''//'' s then
        (let run = takeWhile (\<lambda>c. \<not> is_line_terminator c) (drop 2 s)
         in case drop (length run) (drop 2 s) of
              [] \<Rightarrow> None
            | c # _ \<Rightarrow> if c = LF then Some ([], 2 + length run + 1) else None)
      else None)"

definition comment_re :: matcher where
  \<comment> \<open>\<open>/(?:\/\*.*?\*\/)|(?:\/\/.*\n)/g\<close>, replaced by the empty string\<close>
  "comment_re s = (case block_comment s of Some r \<Rightarrow> Some r | None \<Rightarrow> line_comment s)"

definition plus_op :: "string \<Rightarrow> string option" where
  \<comment> \<open>\<open>\s*\+\s*\<close>: what is left of the text behind it\<close>
  "plus_op s =
     (case dropWhile is_space s of
        [] \<Rightarrow> None
      | c # r \<Rightarrow> if c = CHR ''+'' then Some (dropWhile is_space r) else None)"

definition str_plus_var :: matcher where
  \<comment> \<open>\<open>/(["']\s*\+\s*)([^"'\s])/g\<close> with the replacement \<open>${$2\<close>\<close>
  "str_plus_var s =
     (case s of
        [] \<Rightarrow> None
      | q # r \<Rightarrow>
          if is_quote q then
            (case plus_op r of
               Some (c # t) \<Rightarrow>
                 if is_var_char c then Some (''${'' @ [c], length s - length t) else None
             | _ \<Rightarrow> None)
          else None)"

definition var_plus_str :: matcher where
  \<comment> \<open>\<open>/([^"'\s])(\s*\+\s*["'])/g\<close> with the replacement \<open>$1}\<close>\<close>
  "var_plus_str s =
     (case s of
        [] \<Rightarrow> None
      | c # r \<Rightarrow>
          if is_var_char c then
            (case plus_op r of
               Some (q # t) \<Rightarrow>
                 if is_quote q then Some ([c] @ ''}'', length s - length t) else None
             | _ \<Rightarrow> None)
          else None)"

definition var_plus_var :: matcher where
  \<comment> \<open>\<open>/([^"'\s])(\s*\+\s*)([^"'\s])/g\<close> with the replacement \<open>$1}${$3\<close>\<close>
  "var_plus_var s =
     (case s of
        [] \<Rightarrow> None
      | c # r \<Rightarrow>
          if is_var_char c then
            (case plus_op r of
               Some (d # t) \<Rightarrow>
                 if is_var_char d then Some ([c] @ ''}${'' @ [d], length s - length t) else None
             | _ \<Rightarrow> None)
          else None)"

definition str_plus_str :: matcher where
  \<comment> \<open>\<open>/["']\s*\+\s*["']/g\<close>, replaced by the empty string\<close>
  "str_plus_str s =
     (case s of
        [] \<Rightarrow> None
      | q # r \<Rightarrow>
          if is_quote q then
            (case plus_op r of
               Some (q' # t) \<Rightarrow> if is_quote q' then Some ([], length s - length t) else None
             | _ \<Rightarrow> None)
          else None)"

definition begin_var :: "string \<Rightarrow> string" where
  \<comment> \<open>\<open>replaceAll(/()(^[^"'])/g, '`${$2')\<close>\<close>
  "begin_var s = (case s of [] \<Rightarrow> [] | c # r \<Rightarrow> if is_quote c then s else bq # ''${'' @ s)"

definition begin_str :: "string \<Rightarrow> string" where
  \<comment> \<open>\<open>replaceAll(/^["']/g, '`')\<close>\<close>
  "begin_str s = (case s of [] \<Rightarrow> [] | c # r \<Rightarrow> if is_quote c then bq # r else s)"

definition end_var :: "string \<Rightarrow> string" where
  \<comment> \<open>\<open>replaceAll(/([^"'])()$/g, '$1}`')\<close>\<close>
  "end_var s = (if s \<noteq> [] \<and> \<not> is_quote (last s) then s @ ''}'' @ [bq] else s)"

definition end_str :: "string \<Rightarrow> string" where
  \<comment> \<open>\<open>replaceAll(/["']$/g, '`')\<close>\<close>
  "end_str s = (if s \<noteq> [] \<and> is_quote (last s) then butlast s @ [bq] else s)"

definition concat_to_template :: "string \<Rightarrow> string" where
  \<comment> \<open>lines 54 to 61: the eight replacements, in the order of the source\<close>
  "concat_to_template s =
     end_str (end_var (begin_str (begin_var
       (replaceAll_re str_plus_str (replaceAll_re var_plus_var
         (replaceAll_re var_plus_str (replaceAll_re str_plus_var s)))))))"

definition destinationOf :: "string \<Rightarrow> string" where
  \<comment> \<open>lines 50 to 65: \<open>destinationFile\<close> as computed from \<open>match[1]\<close>\<close>
  "destinationOf arg =
     (let d0 = trim (replaceAll_re comment_re arg);
          d1 = (if (case trim d0 of [] \<Rightarrow> True | c # _ \<Rightarrow> c \<noteq> bq)
                then concat_to_template d0 else d0)
      in trim (filter (\<lambda>c. c \<noteq> bq) d1))"

definition interp_test :: "string \<Rightarrow> bool" where
  \<comment> \<open>\<open>/^.*\${.*?}.*$/.test(s)\<close>: no line terminator anywhere, and a \<open>${\<close> with a
      \<open>}\<close> behind it\<close>
  "interp_test s =
     (list_all (\<lambda>c. \<not> is_line_terminator c) s \<and>
      list_ex (\<lambda>i. starts_with ''${'' (drop i s) \<and> CHR ''}'' \<in> set (drop (i + 2) s))
        [0..<length s])"

definition interp_re :: matcher where
  \<comment> \<open>\<open>/\${.*?}/g\<close> with the replacement \<open>**/*\<close>\<close>
  "interp_re s =
     (if starts_with ''${'' s then map_option (\<lambda>n. (''**/*'', 2 + n)) (lazy_until ''}'' (drop 2 s))
      else None)"

section \<open>The host: \<open>path\<close>, \<open>fast-glob\<close> and \<open>fs\<close>\<close>

text \<open>
  The source imports \<open>Path\<close>, \<open>FastGlob\<close> and \<open>FsPromise\<close> from Node and from npm. They
  are not code of the repository, so the rewriter takes them as one parameter, the
  \<open>host\<close>. A promise that rejects is the value \<open>Inl e\<close>. The globber and the file
  system may answer differently from one call of the loader to the next: each call gets
  the host as it is at that time.
\<close>

datatype js_error = Error string

record host =
  Path_extname :: "string \<Rightarrow> string"
  Path_isAbsolute :: "string \<Rightarrow> bool"
  Path_normalize :: "string \<Rightarrow> string"
  Path_dirname :: "string \<Rightarrow> string"
  FastGlob :: "string \<Rightarrow> string \<Rightarrow> js_error + string list"
  FsPromise_readFile :: "string \<Rightarrow> js_error + string"

subsection \<open>The POSIX flavour of \<open>path\<close>\<close>

text \<open>
  Concrete inputs are run on Node's \<open>path.posix\<close>, written here after its behaviour:
  \<open>normalize\<close> drops empty and \<open>.\<close> segments and resolves \<open>..\<close> against the segment
  before it, \<open>extname\<close> is the part of the last component from its last dot on (empty
  when the dot is the component's first character or the component is \<open>..\<close>), \<open>dirname\<close>
  cuts at the last slash that has a component behind it.
\<close>

fun segments :: "string \<Rightarrow> string \<Rightarrow> string list" where
  "segments cur [] = [cur]"
| "segments cur (c # cs) =
     (if c = CHR ''/'' then cur # segments [] cs else segments (cur @ [c]) cs)"

definition push_segment :: "bool \<Rightarrow> string list \<Rightarrow> string \<Rightarrow> string list" where
  "push_segment allowAboveRoot res seg =
     (if seg = [] \<or> seg = ''.'' then res
      else if seg = ''..'' then
        (if res \<noteq> [] \<and> last res \<noteq> ''..'' then butlast res
         else if allowAboveRoot then res @ [''..''] else res)
      else res @ [seg])"

definition normalizeString :: "string \<Rightarrow> bool \<Rightarrow> string" where
  "normalizeString path allowAboveRoot =
     join_sep ''/'' (foldl (push_segment allowAboveRoot) [] (segments [] path))"

definition posix_isAbsolute :: "string \<Rightarrow> bool" where
  "posix_isAbsolute path = (case path of [] \<Rightarrow> False | c # _ \<Rightarrow> c = CHR ''/'')"

definition posix_normalize :: "string \<Rightarrow> string" where
  "posix_normalize path =
     (if path = [] then ''.''
      else
        (let isAbsolute = posix_isAbsolute path;
             trailingSeparator = (last path = CHR ''/'');
             p = normalizeString path (\<not> isAbsolute)
         in if p = [] then (if isAbsolute then ''/'' else if trailingSeparator then ''./'' else ''.'')
            else (if isAbsolute then ''/'' else []) @ p @ (if trailingSeparator then ''/'' else [])))"

definition posix_extname :: "string \<Rightarrow> string" where
  "posix_extname path =
     (let trimmed = rev (dropWhile (\<lambda>c. c = CHR ''/'') (rev path));
          base = rev (takeWhile (\<lambda>c. c \<noteq> CHR ''/'') (rev trimmed));
          ext = rev (takeWhile (\<lambda>c. c \<noteq> CHR ''.'') (rev base))
      in if CHR ''.'' \<in> set base \<and> length ext + 1 < length base \<and> base \<noteq> ''..''
         then CHR ''.'' # ext else [])"

definition posix_dirname :: "string \<Rightarrow> string" where
  "posix_dirname path =
     (case path of
        [] \<Rightarrow> ''.''
      | c # cs \<Rightarrow>
          (let hasRoot = (c = CHR ''/'');
               r = dropWhile (\<lambda>x. x \<noteq> CHR ''/'') (dropWhile (\<lambda>x. x = CHR ''/'') (rev cs));
               cut = length r
           in if r = [] then (if hasRoot then ''/'' else ''.'')
              else if hasRoot \<and> cut = 1 then ''//''
              else take cut path))"

definition posix_host ::
    "(string \<Rightarrow> string \<Rightarrow> js_error + string list) \<Rightarrow> (string \<Rightarrow> js_error + string) \<Rightarrow> host" where
  "posix_host glob files =
     \<lparr>Path_extname = posix_extname, Path_isAbsolute = posix_isAbsolute,
      Path_normalize = posix_normalize, Path_dirname = posix_dirname,
      FastGlob = glob, FsPromise_readFile = files\<rparr>"

section \<open>The configuration and the plugin factory\<close>

record DynamicImportConfig =
  transformExtensions :: "string list option"
  changeRelativeToAbsolute :: "bool option"
  filter_opt :: "(string \<Rightarrow> bool) option"
  loader_opt :: "string option"

text \<open>
  \<open>transformExtensions = None\<close> stands for every value that is not an array,
  \<open>changeRelativeToAbsolute\<close> is truthy when it is \<open>Some True\<close>, and the regular expression
  \<open>filter\<close> is the set of paths it accepts.
\<close>

record plugin =
  name :: string
  pluginFilter :: "string \<Rightarrow> bool"
  defaultLoader :: string
  pluginConfig :: DynamicImportConfig

definition default_filter :: "string \<Rightarrow> bool" where
  \<comment> \<open>\<open>/\.(js|json)$/\<close>\<close>
  "default_filter path = (ends_with ''.js'' path \<or> ends_with ''.json'' path)"

definition dynamicImport :: "DynamicImportConfig \<Rightarrow> js_error + plugin" where
  \<comment> \<open>the default export, lines 13 to 41; the hook itself is \<open>onLoad\<close> below\<close>
  "dynamicImport config =
     (if transformExtensions config = None \<and> changeRelativeToAbsolute config \<noteq> Some True
      then Inl (Error ''Either transformExtensions needs to be supplied or changeRelativeToAbsolute needs to be true'')
      else Inr \<lparr>name = ''rtvision:dynamic-import'',
                pluginFilter = (case filter_opt config of None \<Rightarrow> default_filter | Some f \<Rightarrow> f),
                defaultLoader = (case loader_opt config of None \<Rightarrow> ''js'' | Some l \<Rightarrow> l),
                pluginConfig = config\<rparr>)"

section \<open>The import rewriter: \<open>replaceImports\<close>\<close>

record import_data =
  fullImport :: string
  pathString :: string

type_synonym scan_state = "string \<times> import_data list \<times> string list"

definition processMatch ::
    "host \<Rightarrow> string \<Rightarrow> DynamicImportConfig \<Rightarrow> scan_state \<Rightarrow> string \<times> string \<Rightarrow> scan_state" where
  \<comment> \<open>the body of the loop over the matches, lines 48 to 79; the state is
      \<open>fileContents\<close>, \<open>importsToReplace\<close> and \<open>globImports\<close>\<close>
  "processMatch h resolveDir config st m =
     (case st of (fileContents, importsToReplace, globImports) \<Rightarrow>
        (let destinationFile = destinationOf (snd m);
             fileExtension = Path_extname h destinationFile
         in if (changeRelativeToAbsolute config = Some True
                  \<and> \<not> Path_isAbsolute h destinationFile \<and> fileExtension = ''.js'')
               \<or> fileExtension = ''.json''
            then
              (let normalizedPath = Path_normalize h (resolveDir @ ''/'' @ destinationFile)
               in (replace_str fileContents (snd m) ([bq] @ normalizedPath @ [bq]),
                   importsToReplace, globImports))
            else if (case transformExtensions config of
                       None \<Rightarrow> False
                     | Some exts \<Rightarrow> fileExtension \<in> set exts)
                    \<and> interp_test destinationFile
            then
              (fileContents,
               importsToReplace @
                 [\<lparr>fullImport = fst m, pathString = [bq] @ destinationFile @ [bq]\<rparr>],
               globImports @ [replaceAll_re interp_re destinationFile])
            else st))"

definition classify ::
    "host \<Rightarrow> string \<Rightarrow> string \<Rightarrow> DynamicImportConfig \<Rightarrow> scan_state" where
  \<comment> \<open>the whole loop: the matches are those of the text as it came in, the splices
      work on the text as it stands\<close>
  "classify h fileContents resolveDir config =
     foldl (processMatch h resolveDir config) (fileContents, [], [])
       (matchAll_import fileContents)"

fun promise_all :: "(js_error + 'a) list \<Rightarrow> js_error + 'a list" where
  \<comment> \<open>\<open>await Promise.all(ps)\<close>: all the values, or a rejection when one of them
      rejects (here the first in the order of the list; which one settles first in time
      is outside the model)\<close>
  "promise_all [] = Inr []"
| "promise_all (p # ps) =
     (case p of
        Inl e \<Rightarrow> Inl e
      | Inr v \<Rightarrow> (case promise_all ps of Inl e \<Rightarrow> Inl e | Inr vs \<Rightarrow> Inr (v # vs)))"

definition array_truthy :: "'a list \<Rightarrow> bool" where
  \<comment> \<open>an array is an object, and every object is truthy\<close>
  "array_truthy xs = True"

definition strip_suffix :: "string \<Rightarrow> string \<Rightarrow> string" where
  \<comment> \<open>\<open>s.replace(/<suffix>$/, '')\<close> for a literal suffix\<close>
  "strip_suffix suffix s = (if ends_with suffix s then take (length s - length suffix) s else s)"

definition strip_js_json :: "string \<Rightarrow> string" where
  \<comment> \<open>\<open>filePath.replace(/\.(js|json)$/, '')\<close>\<close>
  "strip_js_json s = (if ends_with ''.js'' s then strip_suffix ''.js'' s else strip_suffix ''.json'' s)"

definition jsImportFilePaths :: "string list \<Rightarrow> string list" where
  \<comment> \<open>lines 95 to 100: \<open>filter\<close> keeps an entry when the callback's answer is truthy,
      and the callback answers with an array\<close>
  "jsImportFilePaths importFilePaths =
     filter (\<lambda>filePath. array_truthy
               (if ends_with ''.js'' filePath then [filePath, strip_js_json filePath]
                else [filePath]))
       importFilePaths"

definition with_extensionless :: "string list \<Rightarrow> string list" where
  \<comment> \<open>lines 101 to 105\<close>
  "with_extensionless importFilePaths =
     importFilePaths @ map (strip_suffix ''.js'') (jsImportFilePaths importFilePaths)"

type_synonym dedupe_state = "(string \<times> nat) list \<times> (string \<times> string) list \<times> string list"

definition slot_name :: "nat option \<Rightarrow> string" where
  \<comment> \<open>\<open>`_DynamicImportModule${uniqueFilePathsMap.get(pathNormalized)}`\<close>\<close>
  "slot_name v =
     ''_DynamicImportModule'' @ (case v of None \<Rightarrow> ''undefined'' | Some n \<Rightarrow> string_of_nat n)"

definition dedupe_step :: "host \<Rightarrow> string \<Rightarrow> dedupe_state \<Rightarrow> string \<Rightarrow> dedupe_state" where
  \<comment> \<open>the callback of lines 113 to 122. A JavaScript \<open>Map\<close> is the list of its entries
      in insertion order; \<open>set\<close> on a key it has keeps the key's place\<close>
  "dedupe_step h resolveDir st filePath =
     (case st of (uniqueFilePathsMap, moduleMap, kept) \<Rightarrow>
        (let pathNormalized = Path_normalize h (resolveDir @ ''/'' @ filePath);
             isNew = (map_of uniqueFilePathsMap pathNormalized = None);
             uniqueFilePathsMap' =
               (if isNew
                then AList.update pathNormalized (length uniqueFilePathsMap) uniqueFilePathsMap
                else uniqueFilePathsMap)
         in (uniqueFilePathsMap',
             AList.update filePath (slot_name (map_of uniqueFilePathsMap' pathNormalized)) moduleMap,
             if isNew then kept @ [filePath] else kept)))"

definition dedupe :: "host \<Rightarrow> string \<Rightarrow> string list \<Rightarrow> dedupe_state" where
  "dedupe h resolveDir importFilePaths =
     foldl (dedupe_step h resolveDir) ([], [], []) importFilePaths"

definition import_line :: "nat \<Rightarrow> string \<Rightarrow> string" where
  "import_line i path =
     ''import * as _DynamicImportModule'' @ string_of_nat i @ '' from '' @ [sq] @ path @ [sq] @ '';''"

fun importString_from :: "nat \<Rightarrow> string \<Rightarrow> string list \<Rightarrow> string" where
  \<comment> \<open>the \<open>reduce\<close> of lines 124 to 127, from index \<open>i\<close> and accumulator \<open>accum\<close> on\<close>
  "importString_from i accum [] = accum"
| "importString_from i accum (path # paths) =
     importString_from (Suc i)
       ((if accum \<noteq> [] then accum @ [LF] else accum) @ import_line i path) paths"

definition objectMapString :: "(string \<times> string) list \<Rightarrow> string" where
  \<comment> \<open>lines 129 to 136; the last step is \<open>replace(/.$/, '};')\<close>\<close>
  "objectMapString moduleMap =
     (let s = foldl (\<lambda>acc kv. acc @ [sq] @ fst kv @ [sq] @ '':'' @ snd kv @ '','')
                ''const _DynamicImportModuleMap = {'' moduleMap
      in if s \<noteq> [] \<and> \<not> is_line_terminator (last s) then butlast s @ ''};'' else s)"

definition importFunctionString :: string where
  "importFunctionString =
     ''function _DynamicImport(path) {const mod=_DynamicImportModuleMap[path];if(mod) {mod[Symbol.toStringTag]='Module';}return Promise.resolve(mod);}''"

definition replace_queued :: "string \<Rightarrow> import_data \<Rightarrow> string" where
  \<comment> \<open>line 143\<close>
  "replace_queued fileContents importData =
     replace_str fileContents (fullImport importData)
       (''_DynamicImport('' @ pathString importData @ '')'')"

record rewrite =
  result :: string
  globbed :: "(string \<times> string) list"
  logged :: "js_error list"

text \<open>
  \<open>replaceImports\<close> answers with the text it resolves to, the calls it made to the
  globber (pattern and \<open>cwd\<close>) and what it wrote with \<open>console.error\<close>.
\<close>

definition replaceImports ::
    "host \<Rightarrow> string \<Rightarrow> string \<Rightarrow> DynamicImportConfig \<Rightarrow> rewrite" where
  "replaceImports h fileContents resolveDir config =
     (case classify h fileContents resolveDir config of
        (fileContents1, importsToReplace, globImports) \<Rightarrow>
          if length globImports > 0 then
            (let filenameImportPromises = map (\<lambda>globImport. FastGlob h globImport resolveDir) globImports;
                 calls = map (\<lambda>globImport. (globImport, resolveDir)) globImports;
                 settled = promise_all filenameImportPromises;
                 importFilePaths0 = (case settled of Inl e \<Rightarrow> [] | Inr found \<Rightarrow> concat found);
                 errors = (case settled of Inl e \<Rightarrow> [e] | Inr found \<Rightarrow> []);
                 importFilePaths = with_extensionless importFilePaths0
             in if length importFilePaths = 0
                then \<lparr>result = fileContents1, globbed = calls, logged = errors\<rparr>
                else
                  (case dedupe h resolveDir importFilePaths of
                     (uniqueFilePathsMap, moduleMap, dedupedImportFilePaths) \<Rightarrow>
                       (let importString = importString_from 0 [] dedupedImportFilePaths;
                            jsStr = importString @ [LF] @ objectMapString moduleMap @ [LF]
                                      @ importFunctionString @ [LF]
                        in \<lparr>result = jsStr @ foldl replace_queued fileContents1 importsToReplace,
                            globbed = calls, logged = errors\<rparr>)))
          else \<lparr>result = fileContents1, globbed = [], logged = []\<rparr>)"

section \<open>The cache-checked loader\<close>

record load_output =
  contents :: string
  loader :: string

record cache_value =
  value_fileContents :: string
  value_output :: load_output

record loader_state =
  cache :: "string \<rightharpoonup> cache_value"
  globLog :: "(string \<times> string) list"
  console :: "js_error list"

definition setup_state :: "loader_state" where
  \<comment> \<open>the state after the plugin is set up: \<open>const cache = new Map()\<close>, nothing globbed
      or logged yet\<close>
  "setup_state = \<lparr>cache = Map.empty, globLog = [], console = []\<rparr>"

definition onLoad ::
    "host \<Rightarrow> plugin \<Rightarrow> string \<Rightarrow> loader_state \<Rightarrow> (js_error + load_output) \<times> loader_state" where
  \<comment> \<open>the hook of lines 24 to 38, for \<open>args.path = path\<close>. \<open>fresh\<close> and \<open>st'\<close> are what the
      body of the \<open>if\<close> computes; they are used only where the source runs it\<close>
  "onLoad h p path st =
     (let resolveDir = Path_dirname h path;
          fileExtension = Path_extname h path;
          loader = (if fileExtension = ''.json'' then ''json'' else defaultLoader p)
      in case FsPromise_readFile h path of
           Inl e \<Rightarrow> (Inl e, st)
         | Inr fileContents \<Rightarrow>
             (let r = replaceImports h fileContents resolveDir (pluginConfig p);
                  fresh = \<lparr>value_fileContents = fileContents,
                           value_output = \<lparr>contents = result r, loader = loader\<rparr>\<rparr>;
                  st' = \<lparr>cache = (cache st)(path \<mapsto> fresh),
                         globLog = globLog st @ globbed r,
                         console = console st @ logged r\<rparr>
              in case cache st path of
                   None \<Rightarrow> (Inr (value_output fresh), st')
                 | Some cached \<Rightarrow>
                     if value_fileContents cached \<noteq> fileContents then (Inr (value_output fresh), st')
                     else (Inr (value_output cached), st)))"

section \<open>Notions used to state the properties\<close>

text \<open>
  None of the following is code of the plugin. \<open>occurs_at\<close> and \<open>first_occurrence\<close>
  say where a text occurs in another one; \<open>no_dollar_pattern\<close> holds of a replacement
  template in which no \<open>$\<close> is followed by \<open>$\<close>, \<open>&\<close>, a backtick or an apostrophe,
  so that \<open>String.prototype.replace\<close> inserts it as it is; \<open>first_seen_by f xs\<close> keeps
  of \<open>xs\<close> the first element of every value of \<open>f\<close>, in the order of \<open>xs\<close>;
  \<open>index_of xs x\<close> is the position of the first \<open>x\<close> in \<open>xs\<close>; \<open>normalize_in\<close> is
  the path normalized against the directory of the source file; \<open>dedupe_spec\<close> is what
  the loop of lines 113 to 122 computes, said with these notions.
\<close>

definition occurs_at :: "string \<Rightarrow> string \<Rightarrow> nat \<Rightarrow> bool" where
  "occurs_at pat s i = (i + length pat \<le> length s \<and> take (length pat) (drop i s) = pat)"

definition first_occurrence :: "string \<Rightarrow> string \<Rightarrow> nat \<Rightarrow> bool" where
  "first_occurrence pat s i = (occurs_at pat s i \<and> list_all (\<lambda>j. \<not> occurs_at pat s j) [0..<i])"

fun no_dollar_pattern :: "string \<Rightarrow> bool" where
  "no_dollar_pattern (c # d # r) =
     (\<not> (c = CHR ''$'' \<and> (d = CHR ''$'' \<or> d = CHR ''&'' \<or> d = bq \<or> d = sq))
      \<and> no_dollar_pattern (d # r))"
| "no_dollar_pattern s = True"

primrec firsts :: "('a \<Rightarrow> 'b) \<Rightarrow> 'b list \<Rightarrow> 'a list \<Rightarrow> 'a list" where
  "firsts f seen [] = []"
| "firsts f seen (x # xs) =
     (if f x \<in> set seen then firsts f seen xs else x # firsts f (f x # seen) xs)"

definition first_seen_by :: "('a \<Rightarrow> 'b) \<Rightarrow> 'a list \<Rightarrow> 'a list" where
  "first_seen_by f xs = firsts f [] xs"

definition index_of :: "'a list \<Rightarrow> 'a \<Rightarrow> nat" where
  "index_of xs x = length (takeWhile (\<lambda>y. y \<noteq> x) xs)"

definition dedupe_spec :: "(string \<Rightarrow> string) \<Rightarrow> string list \<Rightarrow> dedupe_state" where
  "dedupe_spec norm paths =
     (let kept = first_seen_by norm paths; ns = map norm kept
      in (zip ns [0..<length ns],
          map (\<lambda>p. (p, slot_name (Some (index_of ns (norm p))))) (first_seen_by id paths),
          kept))"

definition normalize_in :: "host \<Rightarrow> string \<Rightarrow> string \<Rightarrow> string" where
  "normalize_in h resolveDir filePath = Path_normalize h (resolveDir @ ''/'' @ filePath)"

section \<open>Concrete hosts and configurations\<close>

text \<open>The inputs on which the theorems below are run.\<close>

definition only_js :: DynamicImportConfig where
  "only_js = \<lparr>transformExtensions = Some [''.js''], changeRelativeToAbsolute = None,
              filter_opt = None, loader_opt = None\<rparr>"

definition absolutize :: DynamicImportConfig where
  "absolutize = \<lparr>transformExtensions = None, changeRelativeToAbsolute = Some True,
                 filter_opt = None, loader_opt = None\<rparr>"

definition no_files :: "string \<Rightarrow> js_error + string" where
  "no_files path = Inl (Error ''ENOENT'')"

definition one_file :: "string \<Rightarrow> string \<Rightarrow> string \<Rightarrow> js_error + string" where
  "one_file file content path = (if path = file then Inr content else Inl (Error ''ENOENT''))"

definition glob_finds :: "string list \<Rightarrow> string \<Rightarrow> string \<Rightarrow> js_error + string list" where
  "glob_finds paths pattern cwd = Inr paths"

definition glob_fails :: "string \<Rightarrow> string \<Rightarrow> js_error + string list" where
  "glob_fails pattern cwd = Inl (Error ''EACCES'')"

section \<open>Facts about the string functions\<close>

lemma starts_with_append: "starts_with p (p @ s)"
  by (simp add: starts_with_def)

lemma starts_with_iff: "starts_with p s \<longleftrightarrow> (\<exists>r. s = p @ r)"
proof
  assume "starts_with p s"
  then have "s = p @ drop (length p) s"
    unfolding starts_with_def by (metis append_take_drop_id)
  then show "\<exists>r. s = p @ r" ..
next
  assume "\<exists>r. s = p @ r"
  then show "starts_with p s" by (auto simp: starts_with_def)
qed

lemma takeWhile_stop:
  "x \<notin> set arg \<Longrightarrow> takeWhile (\<lambda>y. y \<noteq> x) (arg @ x # post) = arg"
  by (induction arg) auto

lemma takeWhile_split:
  assumes "length (takeWhile (\<lambda>y. y \<noteq> x) s) < length s"
  shows "\<exists>post. s = takeWhile (\<lambda>y. y \<noteq> x) s @ x # post"
proof -
  have "dropWhile (\<lambda>y. y \<noteq> x) s \<noteq> []"
  proof
    assume "dropWhile (\<lambda>y. y \<noteq> x) s = []"
    then have "takeWhile (\<lambda>y. y \<noteq> x) s = s"
      using takeWhile_dropWhile_id [of "\<lambda>y. y \<noteq> x" s] by simp
    with assms show False by simp
  qed
  then obtain d ds where d: "dropWhile (\<lambda>y. y \<noteq> x) s = d # ds"
    by (cases "dropWhile (\<lambda>y. y \<noteq> x) s") auto
  then have "d = x"
    using hd_dropWhile [of "\<lambda>y. y \<noteq> x" s] by auto
  with d have "s = takeWhile (\<lambda>y. y \<noteq> x) s @ x # ds"
    using takeWhile_dropWhile_id [of "\<lambda>y. y \<noteq> x" s] by simp
  then show ?thesis ..
qed

lemma matchAll_import_hit:
  assumes "arg \<noteq> []" "CHR '')'' \<notin> set arg"
  shows "matchAll_import (''import('' @ arg @ '')'' @ post) \<noteq> []"
proof -
  have tw: "takeWhile (\<lambda>x. x \<noteq> CHR '')'') (arg @ CHR '')'' # post) = arg"
    using assms(2) by (rule takeWhile_stop)
  have sw: "starts_with ''import('' (CHR ''i'' # ''mport('' @ arg @ CHR '')'' # post)"
    by (simp add: starts_with_def)
  show ?thesis
    using assms(1) tw sw by (simp add: Let_def)
qed

lemma matchAll_import_step:
  "matchAll_import (c # cs) = [] \<Longrightarrow> matchAll_import cs = []"
  by (simp add: Let_def split: if_splits)

lemma matchAll_import_complete:
  assumes "arg \<noteq> []" "CHR '')'' \<notin> set arg"
  shows "matchAll_import (pre @ ''import('' @ arg @ '')'' @ post) \<noteq> []"
proof (induction pre)
  case Nil
  show ?case using matchAll_import_hit [OF assms] by simp
next
  case (Cons c pre)
  show ?case
  proof
    assume "matchAll_import ((c # pre) @ ''import('' @ arg @ '')'' @ post) = []"
    then have "matchAll_import (pre @ ''import('' @ arg @ '')'' @ post) = []"
      using matchAll_import_step by simp
    with Cons.IH show False by simp
  qed
qed

lemma matchAll_import_sound:
  "matchAll_import s \<noteq> [] \<Longrightarrow>
     \<exists>pre arg post. s = pre @ ''import('' @ arg @ '')'' @ post \<and> arg \<noteq> [] \<and> CHR '')'' \<notin> set arg"
proof (induction s)
  case Nil
  then show ?case by simp
next
  case (Cons c cs)
  define rest where "rest = drop 6 cs"
  define arg where "arg = takeWhile (\<lambda>x. x \<noteq> CHR '')'') rest"
  show ?case
  proof (cases "starts_with ''import('' (c # cs) \<and> arg \<noteq> [] \<and> length arg < length rest")
    case True
    then obtain r where r: "c # cs = ''import('' @ r"
      using starts_with_iff by blast
    then have "rest = r" by (simp add: rest_def)
    moreover obtain post where "rest = arg @ CHR '')'' # post"
      using True takeWhile_split [of "CHR '')''" rest] unfolding arg_def by blast
    ultimately have "c # cs = [] @ ''import('' @ arg @ '')'' @ post"
      using r by simp
    moreover have "CHR '')'' \<notin> set arg"
      unfolding arg_def using set_takeWhileD by fastforce
    ultimately show ?thesis using True by blast
  next
    case False
    with Cons.prems have "matchAll_import cs \<noteq> []"
      by (auto simp: Let_def rest_def arg_def split: if_splits)
    from Cons.IH [OF this] obtain pre a post where
      "cs = pre @ ''import('' @ a @ '')'' @ post" "a \<noteq> []" "CHR '')'' \<notin> set a" by blast
    then have "c # cs = (c # pre) @ ''import('' @ a @ '')'' @ post" by simp
    then show ?thesis using \<open>a \<noteq> []\<close> \<open>CHR '')'' \<notin> set a\<close> by blast
  qed
qed

lemma matchAll_import_Nil_iff:
  "matchAll_import s = [] \<longleftrightarrow>
     (\<nexists>pre arg post. s = pre @ ''import('' @ arg @ '')'' @ post \<and> arg \<noteq> [] \<and> CHR '')'' \<notin> set arg)"
  using matchAll_import_sound matchAll_import_complete by blast

lemma starts_with_occurs_at_0: "starts_with pat s \<longleftrightarrow> occurs_at pat s 0"
proof
  assume "starts_with pat s"
  then have "take (length pat) s = pat" by (simp add: starts_with_def)
  moreover from this have "length (take (length pat) s) = length pat" by simp
  then have "length pat \<le> length s" by simp
  ultimately show "occurs_at pat s 0" by (simp add: occurs_at_def)
next
  assume "occurs_at pat s 0"
  then show "starts_with pat s" by (simp add: occurs_at_def starts_with_def)
qed

lemma occurs_at_Cons_Suc: "occurs_at pat (c # cs) (Suc i) \<longleftrightarrow> occurs_at pat cs i"
  by (simp add: occurs_at_def)

lemma first_occurrence_iff:
  "first_occurrence pat s i \<longleftrightarrow> occurs_at pat s i \<and> (\<forall>j<i. \<not> occurs_at pat s j)"
  by (auto simp: first_occurrence_def list_all_iff)

lemma indexOf_Some_iff:
  "indexOf pat s = Some i \<longleftrightarrow> occurs_at pat s i \<and> (\<forall>j<i. \<not> occurs_at pat s j)"
proof (induction s arbitrary: i)
  case Nil
  show ?case
    by (auto simp: occurs_at_def)
next
  case (Cons c cs)
  show ?case
  proof (cases "starts_with pat (c # cs)")
    case True
    then have o: "occurs_at pat (c # cs) 0"
      by (simp add: starts_with_occurs_at_0)
    show ?thesis
    proof
      assume "indexOf pat (c # cs) = Some i"
      with True have "i = 0" by simp
      with o show "occurs_at pat (c # cs) i \<and> (\<forall>j<i. \<not> occurs_at pat (c # cs) j)" by simp
    next
      assume a: "occurs_at pat (c # cs) i \<and> (\<forall>j<i. \<not> occurs_at pat (c # cs) j)"
      with o have "i = 0" by (cases i) auto
      with True show "indexOf pat (c # cs) = Some i" by simp
    qed
  next
    case False
    then have no: "\<not> occurs_at pat (c # cs) 0"
      by (simp add: starts_with_occurs_at_0)
    show ?thesis
    proof
      assume "indexOf pat (c # cs) = Some i"
      with False obtain k where k: "indexOf pat cs = Some k" "i = Suc k" by auto
      with Cons.IH [of k] have "occurs_at pat cs k" "\<forall>j<k. \<not> occurs_at pat cs j" by auto
      with k no show "occurs_at pat (c # cs) i \<and> (\<forall>j<i. \<not> occurs_at pat (c # cs) j)"
        by (auto simp: occurs_at_Cons_Suc less_Suc_eq_0_disj)
    next
      assume a: "occurs_at pat (c # cs) i \<and> (\<forall>j<i. \<not> occurs_at pat (c # cs) j)"
      with no obtain k where k: "i = Suc k" by (cases i) auto
      with a have "occurs_at pat cs k" by (simp add: occurs_at_Cons_Suc)
      moreover have "\<forall>j<k. \<not> occurs_at pat cs j"
      proof (intro allI impI)
        fix j assume "j < k"
        then have "Suc j < i" using k by simp
        with a have "\<not> occurs_at pat (c # cs) (Suc j)" by blast
        then show "\<not> occurs_at pat cs j" by (simp add: occurs_at_Cons_Suc)
      qed
      ultimately have "indexOf pat cs = Some k" using Cons.IH [of k] by blast
      with False k show "indexOf pat (c # cs) = Some i" by simp
    qed
  qed
qed

lemma indexOf_first_occurrence:
  "indexOf pat s = Some i \<longleftrightarrow> first_occurrence pat s i"
  by (simp add: indexOf_Some_iff first_occurrence_iff)

lemma indexOf_None_iff: "indexOf pat s = None \<longleftrightarrow> (\<forall>i. \<not> occurs_at pat s i)"
proof
  assume n: "indexOf pat s = None"
  show "\<forall>i. \<not> occurs_at pat s i"
  proof (intro allI notI)
    fix i assume "occurs_at pat s i"
    then have "\<exists>k. occurs_at pat s k \<and> (\<forall>j<k. \<not> occurs_at pat s j)"
      by (induction i rule: less_induct) blast
    then obtain k where "indexOf pat s = Some k" using indexOf_Some_iff by blast
    with n show False by simp
  qed
next
  assume "\<forall>i. \<not> occurs_at pat s i"
  then show "indexOf pat s = None"
    using indexOf_Some_iff [of pat s] by (cases "indexOf pat s") auto
qed

lemma getSubstitution_plain:
  "no_dollar_pattern template \<Longrightarrow> getSubstitution matched pre post template = template"
  by (induction matched pre post template rule: getSubstitution.induct) auto

lemma replace_str_first:
  assumes "first_occurrence pat s i"
  shows "replace_str s pat template =
           take i s @ getSubstitution pat (take i s) (drop (i + length pat) s) template
             @ drop (i + length pat) s"
  using assms by (simp add: replace_str_def indexOf_first_occurrence [symmetric] Let_def)

lemma replace_str_first_plain:
  assumes "first_occurrence pat s i" "no_dollar_pattern template"
  shows "replace_str s pat template = take i s @ template @ drop (i + length pat) s"
  using assms by (simp add: replace_str_first getSubstitution_plain)

lemma replace_str_absent:
  assumes "\<forall>i. \<not> occurs_at pat s i"
  shows "replace_str s pat template = s"
  using assms by (simp add: replace_str_def indexOf_None_iff [symmetric])

section \<open>The plugin factory\<close>

text \<open>
  Claim C7. Constructing the plugin throws exactly when \<open>transformExtensions\<close> is not
  an array and \<open>changeRelativeToAbsolute\<close> is falsy; in every other case it returns the
  plugin, which holds the configuration. The throw is the value \<open>Inl e\<close>: no plugin
  exists then, so no hook can have been registered.
\<close>

theorem plugin_construction_throws_iff:
  "((\<exists>e. dynamicImport config = Inl e) \<longleftrightarrow>
      (transformExtensions config = None \<and> changeRelativeToAbsolute config \<noteq> Some True))
   \<and> ((\<exists>p. dynamicImport config = Inr p \<and> pluginConfig p = config) \<longleftrightarrow>
      ((\<exists>exts. transformExtensions config = Some exts)
         \<or> changeRelativeToAbsolute config = Some True))"
  by (auto simp: dynamicImport_def)

theorem plugin_construction_throws_iff_witness:
  "(\<exists>e. dynamicImport \<lparr>transformExtensions = None, changeRelativeToAbsolute = Some False,
                         filter_opt = None, loader_opt = None\<rparr> = Inl e)
   \<and> (\<exists>p. dynamicImport only_js = Inr p \<and> pluginConfig p = only_js)"
  using plugin_construction_throws_iff [of "\<lparr>transformExtensions = None,
            changeRelativeToAbsolute = Some False, filter_opt = None, loader_opt = None\<rparr>"]
        plugin_construction_throws_iff [of only_js]
  by (simp add: only_js_def)

section \<open>Texts without an import call\<close>

lemma classify_no_match:
  "matchAll_import fileContents = [] \<Longrightarrow>
     classify h fileContents resolveDir config = (fileContents, [], [])"
  by (simp add: classify_def)

lemma replaceImports_no_glob:
  "classify h fileContents resolveDir config = (fileContents1, importsToReplace, []) \<Longrightarrow>
     replaceImports h fileContents resolveDir config =
       \<lparr>result = fileContents1, globbed = [], logged = []\<rparr>"
  by (simp add: replaceImports_def)

text \<open>
  Claim C8. A text in which \<open>import(\<close>, a non-empty argument free of \<open>)\<close>, and
  \<open>)\<close> nowhere follow one another comes back unchanged, whatever the directory, the
  configuration and the host; the globber is not called and nothing is logged.
\<close>

theorem no_import_call_no_change:
  assumes "\<nexists>pre arg post. fileContents = pre @ ''import('' @ arg @ '')'' @ post
             \<and> arg \<noteq> [] \<and> CHR '')'' \<notin> set arg"
  shows "replaceImports h fileContents resolveDir config =
           \<lparr>result = fileContents, globbed = [], logged = []\<rparr>"
proof -
  from assms have "matchAll_import fileContents = []"
    using matchAll_import_Nil_iff [of fileContents] by blast
  then show ?thesis
    by (simp add: classify_no_match replaceImports_no_glob)
qed

lemma no_match_example: "matchAll_import ''import(); f(import(x'' = []"
  by code_simp

theorem no_import_call_no_change_witness:
  "replaceImports (posix_host glob_fails no_files) ''import(); f(import(x'' ''/a/b'' only_js =
     \<lparr>result = ''import(); f(import(x'', globbed = [], logged = []\<rparr>"
  using no_import_call_no_change [of "''import(); f(import(x''"] no_match_example
        matchAll_import_Nil_iff [of "''import(); f(import(x''"]
  by blast

section \<open>The loader and its cache\<close>

lemma onLoad_hit:
  assumes "cache st path = Some cached"
      and "FsPromise_readFile h path = Inr (value_fileContents cached)"
  shows "onLoad h p path st = (Inr (value_output cached), st)"
  using assms by (simp add: onLoad_def Let_def)

lemma onLoad_miss:
  assumes "FsPromise_readFile h path = Inr c"
      and "\<forall>cached. cache st path = Some cached \<longrightarrow> value_fileContents cached \<noteq> c"
  shows "onLoad h p path st =
    (let r = replaceImports h c (Path_dirname h path) (pluginConfig p);
         output = \<lparr>contents = result r,
                   loader = (if Path_extname h path = ''.json'' then ''json'' else defaultLoader p)\<rparr>
     in (Inr output,
         \<lparr>cache = (cache st)(path \<mapsto> \<lparr>value_fileContents = c, value_output = output\<rparr>),
          globLog = globLog st @ globbed r, console = console st @ logged r\<rparr>))"
  using assms by (cases "cache st path") (simp_all add: onLoad_def Let_def)

lemma onLoad_leaves_entry:
  assumes "FsPromise_readFile h path = Inr c" and "onLoad h p path st = (r, st')"
  shows "\<exists>cached. cache st' path = Some cached \<and> value_fileContents cached = c
           \<and> r = Inr (value_output cached)"
proof (cases "\<forall>cached. cache st path = Some cached \<longrightarrow> value_fileContents cached \<noteq> c")
  case True
  from onLoad_miss [OF assms(1) True, of p] assms(2) show ?thesis
    by (auto simp: Let_def)
next
  case False
  then obtain cached where c: "cache st path = Some cached" "value_fileContents cached = c"
    by blast
  with assms(1) have "onLoad h p path st = (Inr (value_output cached), st)"
    by (simp add: onLoad_hit)
  with assms(2) c show ?thesis by auto
qed

text \<open>
  Claim C6. When the cache has an entry for the path and the file reads as the contents
  stored there, the loader answers with the stored output and leaves the state as it
  is: no rewrite, no call of the globber. In particular a second call on unchanged
  contents gives the answer and the state of the first, whatever the globber would
  now find. When there is no entry, or the contents differ, the rewrite runs on the new
  contents and its output replaces the entry of that path.
\<close>

theorem loader_cache:
  "(cache st path = Some cached \<and> FsPromise_readFile h path = Inr (value_fileContents cached) \<longrightarrow>
      onLoad h p path st = (Inr (value_output cached), st))
   \<and> (FsPromise_readFile h1 path = Inr c \<and> FsPromise_readFile h2 path = Inr c
        \<and> onLoad h1 p path st = (r1, st1) \<longrightarrow>
      onLoad h2 p path st1 = (r1, st1))
   \<and> (FsPromise_readFile h path = Inr c
        \<and> (\<forall>cached. cache st path = Some cached \<longrightarrow> value_fileContents cached \<noteq> c) \<longrightarrow>
      onLoad h p path st =
        (let r = replaceImports h c (Path_dirname h path) (pluginConfig p);
             output = \<lparr>contents = result r,
                       loader = (if Path_extname h path = ''.json'' then ''json''
                                 else defaultLoader p)\<rparr>
         in (Inr output,
             \<lparr>cache = (cache st)(path \<mapsto> \<lparr>value_fileContents = c, value_output = output\<rparr>),
              globLog = globLog st @ globbed r,
              console = console st @ logged r\<rparr>)))"
proof (intro conjI impI)
  assume "cache st path = Some cached \<and> FsPromise_readFile h path = Inr (value_fileContents cached)"
  then show "onLoad h p path st = (Inr (value_output cached), st)"
    by (simp add: onLoad_hit)
next
  assume a: "FsPromise_readFile h1 path = Inr c \<and> FsPromise_readFile h2 path = Inr c
        \<and> onLoad h1 p path st = (r1, st1)"
  then obtain cached where "cache st1 path = Some cached" "value_fileContents cached = c"
      "r1 = Inr (value_output cached)"
    using onLoad_leaves_entry [of h1 path c p st r1 st1] by blast
  with a show "onLoad h2 p path st1 = (r1, st1)"
    by (simp add: onLoad_hit)
next
  assume "FsPromise_readFile h path = Inr c
        \<and> (\<forall>cached. cache st path = Some cached \<longrightarrow> value_fileContents cached \<noteq> c)"
  then show "onLoad h p path st =
        (let r = replaceImports h c (Path_dirname h path) (pluginConfig p);
             output = \<lparr>contents = result r,
                       loader = (if Path_extname h path = ''.json'' then ''json''
                                 else defaultLoader p)\<rparr>
         in (Inr output,
             \<lparr>cache = (cache st)(path \<mapsto> \<lparr>value_fileContents = c, value_output = output\<rparr>),
              globLog = globLog st @ globbed r,
              console = console st @ logged r\<rparr>))"
    using onLoad_miss [of h path c st p] by blast
qed

theorem loader_cache_witness:
  "onLoad (posix_host glob_fails (one_file ''/a/b/x.js'' ''load(import(`./mod-${x}.js`))''))
       \<lparr>name = ''rtvision:dynamic-import'', pluginFilter = default_filter, defaultLoader = ''js'',
        pluginConfig = only_js\<rparr> ''/a/b/x.js''
       (snd (onLoad (posix_host (glob_finds [''mod-a.js''])
                       (one_file ''/a/b/x.js'' ''load(import(`./mod-${x}.js`))''))
               \<lparr>name = ''rtvision:dynamic-import'', pluginFilter = default_filter,
                defaultLoader = ''js'', pluginConfig = only_js\<rparr> ''/a/b/x.js'' setup_state))
   = onLoad (posix_host (glob_finds [''mod-a.js''])
                       (one_file ''/a/b/x.js'' ''load(import(`./mod-${x}.js`))''))
               \<lparr>name = ''rtvision:dynamic-import'', pluginFilter = default_filter,
                defaultLoader = ''js'', pluginConfig = only_js\<rparr> ''/a/b/x.js'' setup_state"
proof -
  let ?files = "one_file ''/a/b/x.js'' ''load(import(`./mod-${x}.js`))''"
  let ?h1 = "posix_host (glob_finds [''mod-a.js'']) ?files"
  let ?h2 = "posix_host glob_fails ?files"
  let ?p = "\<lparr>name = ''rtvision:dynamic-import'', pluginFilter = default_filter,
                defaultLoader = ''js'', pluginConfig = only_js\<rparr>"
  have r1: "FsPromise_readFile ?h1 ''/a/b/x.js'' = Inr ''load(import(`./mod-${x}.js`))''"
    by (simp add: posix_host_def one_file_def)
  have r2: "FsPromise_readFile ?h2 ''/a/b/x.js'' = Inr ''load(import(`./mod-${x}.js`))''"
    by (simp add: posix_host_def one_file_def)
  obtain r st1 where first: "onLoad ?h1 ?p ''/a/b/x.js'' setup_state = (r, st1)"
    by (cases "onLoad ?h1 ?p ''/a/b/x.js'' setup_state") auto
  from loader_cache [of setup_state "''/a/b/x.js''" _ _ ?p ?h1 "''load(import(`./mod-${x}.js`))''" ?h2 r st1] r1 r2 first
  have "onLoad ?h2 ?p ''/a/b/x.js'' st1 = (r, st1)" by blast
  with first show ?thesis by simp
qed

section \<open>Globs that fail or find nothing\<close>

lemma promise_all_Inl_mem: "promise_all ps = Inl e \<Longrightarrow> Inl e \<in> set ps"
  by (induction ps) (auto split: sum.splits)

lemma promise_all_rejects:
  "Inl e \<in> set ps \<Longrightarrow> \<exists>e'. promise_all ps = Inl e'"
  by (induction ps) (auto split: sum.splits)

lemma promise_all_Inr: "promise_all ps = Inr vs \<Longrightarrow> ps = map Inr vs"
  by (induction ps arbitrary: vs) (auto split: sum.splits)

lemma jsImportFilePaths_all: "jsImportFilePaths ps = ps"
  by (simp add: jsImportFilePaths_def array_truthy_def)

lemma with_extensionless_Nil_iff: "with_extensionless ps = [] \<longleftrightarrow> ps = []"
  by (simp add: with_extensionless_def jsImportFilePaths_all)

lemma replaceImports_rejected:
  assumes "classify h fileContents resolveDir config = (fileContents1, importsToReplace, globImports)"
      and "promise_all (map (\<lambda>g. FastGlob h g resolveDir) globImports) = Inl e"
  shows "replaceImports h fileContents resolveDir config =
           \<lparr>result = fileContents1, globbed = map (\<lambda>g. (g, resolveDir)) globImports, logged = [e]\<rparr>"
proof -
  from assms(2) have "globImports \<noteq> []" by auto
  then show ?thesis
    using assms by (simp add: replaceImports_def with_extensionless_def jsImportFilePaths_all)
qed

lemma replaceImports_nothing_found:
  assumes "classify h fileContents resolveDir config = (fileContents1, importsToReplace, globImports)"
      and "promise_all (map (\<lambda>g. FastGlob h g resolveDir) globImports) = Inr found"
      and "concat found = []"
  shows "replaceImports h fileContents resolveDir config =
           \<lparr>result = fileContents1, globbed = map (\<lambda>g. (g, resolveDir)) globImports, logged = []\<rparr>"
proof (cases "globImports = []")
  case True
  then show ?thesis using assms(1) by (simp add: replaceImports_def)
next
  case False
  then show ?thesis
    using assms by (simp add: replaceImports_def with_extensionless_def jsImportFilePaths_all)
qed

lemma processMatch_text_unchanged:
  assumes "\<not> ((changeRelativeToAbsolute config = Some True
                \<and> \<not> Path_isAbsolute h (destinationOf (snd m))
                \<and> Path_extname h (destinationOf (snd m)) = ''.js'')
              \<or> Path_extname h (destinationOf (snd m)) = ''.json'')"
  shows "fst (processMatch h resolveDir config (t, q, g) m) = t"
  using assms by (auto simp: processMatch_def Let_def)

lemma foldl_processMatch_text_unchanged:
  assumes "\<forall>m\<in>set ms. \<not> ((changeRelativeToAbsolute config = Some True
                \<and> \<not> Path_isAbsolute h (destinationOf (snd m))
                \<and> Path_extname h (destinationOf (snd m)) = ''.js'')
              \<or> Path_extname h (destinationOf (snd m)) = ''.json'')"
  shows "fst (foldl (processMatch h resolveDir config) (t, q, g) ms) = t"
  using assms
proof (induction ms arbitrary: t q g)
  case Nil
  then show ?case by simp
next
  case (Cons m ms)
  obtain t' q' g' where st: "processMatch h resolveDir config (t, q, g) m = (t', q', g')"
    by (cases "processMatch h resolveDir config (t, q, g) m") auto
  have "t' = t"
    using processMatch_text_unchanged [of config h m resolveDir t q g] Cons.prems st by simp
  moreover have "fst (foldl (processMatch h resolveDir config) (t', q', g') ms) = t'"
    using Cons.IH Cons.prems by simp
  ultimately show ?case using st by simp
qed

text \<open>
  Claim C5, as amended. Let the first loop leave the text \<open>fileContents1\<close>: the text that
  came in, with the rewrites to absolute paths done. When the globber rejects one of the
  patterns, \<open>replaceImports\<close> still resolves: to \<open>fileContents1\<close>, with one of the
  rejections written to the console and nothing else. When every pattern finds nothing, it
  resolves to \<open>fileContents1\<close> as well. In both cases no queued import is replaced and
  nothing is put in front of the text. \<open>fileContents1\<close> is the text that came in when no
  match was rewritten to an absolute path.
\<close>

theorem failed_or_empty_glob_leaves_text:
  assumes "classify h fileContents resolveDir config = (fileContents1, importsToReplace, globImports)"
  shows "(g \<in> set globImports \<and> FastGlob h g resolveDir = Inl e \<longrightarrow>
            (\<exists>e' g'. g' \<in> set globImports \<and> FastGlob h g' resolveDir = Inl e' \<and>
               replaceImports h fileContents resolveDir config =
                 \<lparr>result = fileContents1,
                  globbed = map (\<lambda>g. (g, resolveDir)) globImports,
                  logged = [e']\<rparr>))
       \<and> ((\<forall>g\<in>set globImports. FastGlob h g resolveDir = Inr []) \<longrightarrow>
            replaceImports h fileContents resolveDir config =
              \<lparr>result = fileContents1,
               globbed = map (\<lambda>g. (g, resolveDir)) globImports,
               logged = []\<rparr>)
       \<and> ((\<forall>m\<in>set (matchAll_import fileContents).
               \<not> ((changeRelativeToAbsolute config = Some True
                     \<and> \<not> Path_isAbsolute h (destinationOf (snd m))
                     \<and> Path_extname h (destinationOf (snd m)) = ''.js'')
                   \<or> Path_extname h (destinationOf (snd m)) = ''.json'')) \<longrightarrow>
            fileContents1 = fileContents)"
proof (intro conjI impI)
  assume rej: "g \<in> set globImports \<and> FastGlob h g resolveDir = Inl e"
  let ?ps = "map (\<lambda>g. FastGlob h g resolveDir) globImports"
  from rej have "Inl e \<in> set ?ps" by force
  then obtain e' where e': "promise_all ?ps = Inl e'"
    using promise_all_rejects by blast
  then have "Inl e' \<in> set ?ps" by (rule promise_all_Inl_mem)
  then obtain g' where "g' \<in> set globImports" "FastGlob h g' resolveDir = Inl e'"
    by auto
  moreover note replaceImports_rejected [OF assms e']
  ultimately show "\<exists>e' g'. g' \<in> set globImports \<and> FastGlob h g' resolveDir = Inl e' \<and>
               replaceImports h fileContents resolveDir config =
                 \<lparr>result = fileContents1,
                  globbed = map (\<lambda>g. (g, resolveDir)) globImports,
                  logged = [e']\<rparr>"
    by blast
next
  assume empty: "\<forall>g\<in>set globImports. FastGlob h g resolveDir = Inr []"
  have "promise_all (map (\<lambda>g. FastGlob h g resolveDir) gs) = Inr (map (\<lambda>g. []) gs)"
    if "\<forall>g\<in>set gs. FastGlob h g resolveDir = Inr []" for gs
    using that by (induction gs) auto
  from this [OF empty] replaceImports_nothing_found [OF assms]
  show "replaceImports h fileContents resolveDir config =
              \<lparr>result = fileContents1,
               globbed = map (\<lambda>g. (g, resolveDir)) globImports,
               logged = []\<rparr>"
    by simp
next
  assume "\<forall>m\<in>set (matchAll_import fileContents).
               \<not> ((changeRelativeToAbsolute config = Some True
                     \<and> \<not> Path_isAbsolute h (destinationOf (snd m))
                     \<and> Path_extname h (destinationOf (snd m)) = ''.js'')
                   \<or> Path_extname h (destinationOf (snd m)) = ''.json'')"
  from foldl_processMatch_text_unchanged [OF this, of resolveDir fileContents "[]" "[]"] assms
  show "fileContents1 = fileContents"
    by (simp add: classify_def)
qed

text \<open>
  The claim as it was written says that the text comes back unmodified. Here the first
  import has the extension \<open>.json\<close> and is rewritten to an absolute path before the globs
  run; whether the globber finds nothing or rejects, that rewrite stays in the text that
  comes back, which is not the text that came in.
\<close>

theorem failed_or_empty_glob_leaves_text_counterexample:
  "replaceImports (posix_host (glob_finds []) no_files)
      ''import('./a.json');import(`./${x}.js`)'' ''/d'' only_js =
     \<lparr>result = ''import(`/d/a.json`);import(`./${x}.js`)'',
      globbed = [(''./**/*.js'', ''/d'')], logged = []\<rparr>
   \<and> replaceImports (posix_host glob_fails no_files)
      ''import('./a.json');import(`./${x}.js`)'' ''/d'' only_js =
     \<lparr>result = ''import(`/d/a.json`);import(`./${x}.js`)'',
      globbed = [(''./**/*.js'', ''/d'')], logged = [Error ''EACCES'']\<rparr>
   \<and> ''import(`/d/a.json`);import(`./${x}.js`)'' \<noteq> ''import('./a.json');import(`./${x}.js`)''"
  by code_simp

lemma classify_example:
  "classify (posix_host glob_fails no_files) ''load(import(`./mod-${x}.js`))'' ''/a/b'' only_js =
     (''load(import(`./mod-${x}.js`))'',
      [\<lparr>fullImport = ''import(`./mod-${x}.js`)'', pathString = ''`./mod-${x}.js`''\<rparr>],
      [''./mod-**/*.js''])"
  by code_simp

theorem failed_or_empty_glob_leaves_text_witness:
  "replaceImports (posix_host glob_fails no_files) ''load(import(`./mod-${x}.js`))'' ''/a/b'' only_js =
     \<lparr>result = ''load(import(`./mod-${x}.js`))'',
      globbed = [(''./mod-**/*.js'', ''/a/b'')],
      logged = [Error ''EACCES'']\<rparr>"
  using failed_or_empty_glob_leaves_text [OF classify_example, of "''./mod-**/*.js''" "Error ''EACCES''"]
  by (simp add: posix_host_def glob_fails_def)

section \<open>The two text splices\<close>

lemma processMatch_absolute:
  assumes "(changeRelativeToAbsolute config = Some True
              \<and> \<not> Path_isAbsolute h (destinationOf (snd m))
              \<and> Path_extname h (destinationOf (snd m)) = ''.js'')
           \<or> Path_extname h (destinationOf (snd m)) = ''.json''"
  shows "processMatch h resolveDir config (t, q, g) m =
           (replace_str t (snd m)
              ([bq] @ Path_normalize h (resolveDir @ ''/'' @ destinationOf (snd m)) @ [bq]), q, g)"
  using assms by (auto simp: processMatch_def Let_def)

lemma processMatch_queued:
  assumes "\<not> ((changeRelativeToAbsolute config = Some True
              \<and> \<not> Path_isAbsolute h (destinationOf (snd m))
              \<and> Path_extname h (destinationOf (snd m)) = ''.js'')
           \<or> Path_extname h (destinationOf (snd m)) = ''.json'')"
      and "transformExtensions config = Some exts"
      and "Path_extname h (destinationOf (snd m)) \<in> set exts"
      and "interp_test (destinationOf (snd m))"
  shows "processMatch h resolveDir config (t, q, g) m =
           (t, q @ [\<lparr>fullImport = fst m, pathString = [bq] @ destinationOf (snd m) @ [bq]\<rparr>],
            g @ [replaceAll_re interp_re (destinationOf (snd m))])"
  using assms by (auto simp: processMatch_def Let_def)

text \<open>
  Claim C10. Both splices work on the text as a whole, not on the span of the match.
  When a match is rewritten to an absolute path, what is cut out is the first occurrence
  of the text of its argument, wherever that is; when a queued import is replaced, what is
  cut out is the first occurrence of the text of the whole call. What is put in is the
  replacement template as \<open>String.prototype.replace\<close> expands it. In the text of the last
  conjunct the argument of the import occurs earlier, in an assignment: the assignment is
  rewritten and the import is left as it was.
\<close>

theorem splices_hit_first_occurrence:
  "(((changeRelativeToAbsolute config = Some True
        \<and> \<not> Path_isAbsolute h (destinationOf (snd m))
        \<and> Path_extname h (destinationOf (snd m)) = ''.js'')
      \<or> Path_extname h (destinationOf (snd m)) = ''.json'')
     \<and> first_occurrence (snd m) fileContents i \<longrightarrow>
    fst (processMatch h resolveDir config (fileContents, importsToReplace, globImports) m) =
      take i fileContents
      @ getSubstitution (snd m) (take i fileContents) (drop (i + length (snd m)) fileContents)
          ([bq] @ Path_normalize h (resolveDir @ ''/'' @ destinationOf (snd m)) @ [bq])
      @ drop (i + length (snd m)) fileContents)
   \<and> (first_occurrence (fullImport importData) fileContents i \<longrightarrow>
    replace_queued fileContents importData =
      take i fileContents
      @ getSubstitution (fullImport importData) (take i fileContents)
          (drop (i + length (fullImport importData)) fileContents)
          (''_DynamicImport('' @ pathString importData @ '')'')
      @ drop (i + length (fullImport importData)) fileContents)
   \<and> result (replaceImports (posix_host glob_fails no_files)
               ''x = './a.json'; import('./a.json')'' ''/d'' only_js)
       = ''x = `/d/a.json`; import('./a.json')''"
proof (intro conjI impI)
  assume a: "((changeRelativeToAbsolute config = Some True
        \<and> \<not> Path_isAbsolute h (destinationOf (snd m))
        \<and> Path_extname h (destinationOf (snd m)) = ''.js'')
      \<or> Path_extname h (destinationOf (snd m)) = ''.json'')
     \<and> first_occurrence (snd m) fileContents i"
  then show "fst (processMatch h resolveDir config (fileContents, importsToReplace, globImports) m) =
      take i fileContents
      @ getSubstitution (snd m) (take i fileContents) (drop (i + length (snd m)) fileContents)
          ([bq] @ Path_normalize h (resolveDir @ ''/'' @ destinationOf (snd m)) @ [bq])
      @ drop (i + length (snd m)) fileContents"
    using processMatch_absolute [of config h m resolveDir fileContents importsToReplace globImports]
          replace_str_first [of "snd m" fileContents i]
    by simp
next
  assume "first_occurrence (fullImport importData) fileContents i"
  then show "replace_queued fileContents importData =
      take i fileContents
      @ getSubstitution (fullImport importData) (take i fileContents)
          (drop (i + length (fullImport importData)) fileContents)
          (''_DynamicImport('' @ pathString importData @ '')'')
      @ drop (i + length (fullImport importData)) fileContents"
    by (simp add: replace_queued_def replace_str_first)
next
  show "result (replaceImports (posix_host glob_fails no_files)
               ''x = './a.json'; import('./a.json')'' ''/d'' only_js)
       = ''x = `/d/a.json`; import('./a.json')''"
    by code_simp
qed

theorem splices_hit_first_occurrence_witness:
  "fst (processMatch (posix_host glob_fails no_files) ''/d'' only_js
          (''x = './a.json'; import('./a.json')'', [], [])
          (''import('./a.json')'', [sq] @ ''./a.json'' @ [sq]))
     = ''x = `/d/a.json`; import('./a.json')''
   \<and> replace_queued ''g(import(`./${x}.js`), import(`./${x}.js`))''
        \<lparr>fullImport = ''import(`./${x}.js`)'', pathString = ''`./${x}.js`''\<rparr>
     = ''g(_DynamicImport(`./${x}.js`), import(`./${x}.js`))''"
proof
  let ?h = "posix_host glob_fails no_files"
  let ?m = "(''import('./a.json')'', [sq] @ ''./a.json'' @ [sq])"
  let ?t = "''x = './a.json'; import('./a.json')''"
  have ext: "Path_extname ?h (destinationOf (snd ?m)) = ''.json''"
    by code_simp
  have occ: "first_occurrence (snd ?m) ?t 4"
    by code_simp
  have "fst (processMatch ?h ''/d'' only_js (?t, [], []) ?m) =
      take 4 ?t
      @ getSubstitution (snd ?m) (take 4 ?t) (drop (4 + length (snd ?m)) ?t)
          ([bq] @ Path_normalize ?h (''/d'' @ ''/'' @ destinationOf (snd ?m)) @ [bq])
      @ drop (4 + length (snd ?m)) ?t"
    using splices_hit_first_occurrence [of only_js ?h ?m ?t 4 "''/d''" "[]" "[]"] ext occ
    by blast
  also have "\<dots> = ''x = `/d/a.json`; import('./a.json')''"
    by code_simp
  finally show "fst (processMatch ?h ''/d'' only_js (?t, [], []) ?m)
     = ''x = `/d/a.json`; import('./a.json')''" .
next
  let ?d = "\<lparr>fullImport = ''import(`./${x}.js`)'', pathString = ''`./${x}.js`''\<rparr>"
  let ?t = "''g(import(`./${x}.js`), import(`./${x}.js`))''"
  have occ: "first_occurrence (fullImport ?d) ?t 2"
    by code_simp
  have "replace_queued ?t ?d =
      take 2 ?t
      @ getSubstitution (fullImport ?d) (take 2 ?t) (drop (2 + length (fullImport ?d)) ?t)
          (''_DynamicImport('' @ pathString ?d @ '')'')
      @ drop (2 + length (fullImport ?d)) ?t"
    using splices_hit_first_occurrence [of _ _ _ ?t 2 _ _ _ ?d] occ
    by blast
  also have "\<dots> = ''g(_DynamicImport(`./${x}.js`), import(`./${x}.js`))''"
    by code_simp
  finally show "replace_queued ?t ?d = ''g(_DynamicImport(`./${x}.js`), import(`./${x}.js`))''" .
qed





section \<open>Slots and the module map\<close>

lemma firsts_snoc:
  "firsts f seen (xs @ [x]) =
     firsts f seen xs @ (if f x \<in> set seen \<union> f ` set xs then [] else [x])"
  by (induction xs arbitrary: seen) auto

lemma first_seen_by_snoc:
  "first_seen_by f (xs @ [x]) =
     (if f x \<in> f ` set xs then first_seen_by f xs else first_seen_by f xs @ [x])"
  by (simp add: first_seen_by_def firsts_snoc)

lemma first_seen_by_Nil [simp]: "first_seen_by f [] = []"
  by (simp add: first_seen_by_def)

lemma image_first_seen_by: "f ` set (first_seen_by f xs) = f ` set xs"
  by (induction xs rule: rev_induct) (auto simp: first_seen_by_snoc)

lemma set_first_seen_by_subset: "set (first_seen_by f xs) \<subseteq> set xs"
  by (induction xs rule: rev_induct) (auto simp: first_seen_by_snoc)

lemma set_first_seen_by_id: "set (first_seen_by id xs) = set xs"
  using image_first_seen_by [of id xs] by simp


lemma index_of_append_in: "y \<in> set xs \<Longrightarrow> index_of (xs @ zs) y = index_of xs y"
  by (simp add: index_of_def takeWhile_append1 [of y xs] )

lemma index_of_snoc_notin: "y \<notin> set xs \<Longrightarrow> index_of (xs @ [y]) y = length xs"
  unfolding index_of_def by (induction xs) auto

lemma index_of_less: "y \<in> set xs \<Longrightarrow> index_of xs y < length xs"
  unfolding index_of_def by (induction xs) auto

lemma nth_index_of: "y \<in> set xs \<Longrightarrow> xs ! index_of xs y = y"
  unfolding index_of_def by (induction xs) auto

lemma index_of_nth_distinct:
  "distinct xs \<Longrightarrow> k < length xs \<Longrightarrow> index_of xs (xs ! k) = k"
proof (induction xs arbitrary: k)
  case Nil
  then show ?case by simp
next
  case (Cons x xs)
  show ?case
  proof (cases k)
    case 0
    then show ?thesis by (simp add: index_of_def)
  next
    case (Suc j)
    with Cons.prems have "xs ! j \<noteq> x" "j < length xs" "distinct xs" by auto
    with Cons.IH [of j] Suc show ?thesis by (simp add: index_of_def)
  qed
qed

lemma map_of_zip_upt:
  "map_of (zip xs [k..<k + length xs]) y =
     (if y \<in> set xs then Some (k + index_of xs y) else None)"
proof (induction xs arbitrary: k)
  case Nil
  show ?case by simp
next
  case (Cons x xs)
  have "[k..<k + length (x # xs)] = k # [Suc k..<Suc k + length xs]"
    by (subst upt_rec) simp
  with Cons.IH [of "Suc k"] show ?case
    by (auto simp: index_of_def)
qed

lemma map_of_enumerated:
  "map_of (zip xs [0..<length xs]) y = (if y \<in> set xs then Some (index_of xs y) else None)"
  using map_of_zip_upt [of xs 0 y] by simp

lemma update_fresh: "k \<notin> fst ` set al \<Longrightarrow> AList.update k v al = al @ [(k, v)]"
  by (induction al) auto

lemma zip_enumerate_snoc:
  "zip (ns @ [n]) [0..<length (ns @ [n])] = zip ns [0..<length ns] @ [(n, length ns)]"
  by simp

lemma dedupe_step_spec:
  assumes norm: "norm = (\<lambda>p. Path_normalize h (resolveDir @ ''/'' @ p))"
  shows "dedupe_step h resolveDir (dedupe_spec norm paths) x = dedupe_spec norm (paths @ [x])"
proof -
  define kept where "kept = first_seen_by norm paths"
  define ns where "ns = map norm kept"
  define keys where "keys = first_seen_by id paths"
  define uniq where "uniq = zip ns [0..<length ns]"
  define mm where "mm = map (\<lambda>p. (p, slot_name (Some (index_of ns (norm p))))) keys"
  have spec: "dedupe_spec norm paths = (uniq, mm, kept)"
    by (simp add: dedupe_spec_def Let_def kept_def ns_def keys_def uniq_def mm_def)
  have set_ns: "set ns = norm ` set paths"
    using image_first_seen_by [of norm paths] by (simp add: ns_def kept_def)
  have set_keys: "set keys = set paths"
    by (simp add: keys_def set_first_seen_by_id)
  have keys_mm: "fst ` set mm = set paths"
    using set_keys by (force simp: mm_def)
  have len_uniq: "length uniq = length ns"
    by (simp add: uniq_def)
  have lookup: "map_of uniq y = (if y \<in> set ns then Some (index_of ns y) else None)" for y
    by (simp add: uniq_def map_of_enumerated)
  have pn: "Path_normalize h (resolveDir @ CHR ''/'' # x) = norm x"
    by (simp add: norm)
  show ?thesis
  proof (cases "norm x \<in> norm ` set paths")
    case True
    then have old: "norm x \<in> set ns" by (simp add: set_ns)
    have k: "first_seen_by norm (paths @ [x]) = kept"
      using True by (simp add: first_seen_by_snoc kept_def)
    have step: "dedupe_step h resolveDir (uniq, mm, kept) x =
        (uniq, AList.update x (slot_name (Some (index_of ns (norm x)))) mm, kept)"
      using old by (simp add: dedupe_step_def pn lookup Let_def)
    show ?thesis
    proof (cases "x \<in> set paths")
      case True
      then have "map_of mm x = Some (slot_name (Some (index_of ns (norm x))))"
        using set_keys by (simp add: mm_def map_of_map_restrict)
      then have "AList.update x (slot_name (Some (index_of ns (norm x)))) mm = mm"
        by (rule AList.update_triv)
      with step have lhs: "dedupe_step h resolveDir (uniq, mm, kept) x = (uniq, mm, kept)"
        by simp
      have keys': "first_seen_by id (paths @ [x]) = keys"
        using True by (simp add: first_seen_by_snoc keys_def)
      have rhs: "dedupe_spec norm (paths @ [x]) = (uniq, mm, kept)"
        unfolding dedupe_spec_def Let_def k keys'
        by (simp add: uniq_def mm_def ns_def)
      show ?thesis unfolding spec lhs rhs ..
    next
      case False
      then have "AList.update x (slot_name (Some (index_of ns (norm x)))) mm =
          mm @ [(x, slot_name (Some (index_of ns (norm x))))]"
        using keys_mm by (simp add: update_fresh)
      with step have lhs: "dedupe_step h resolveDir (uniq, mm, kept) x =
          (uniq, mm @ [(x, slot_name (Some (index_of ns (norm x))))], kept)"
        by simp
      have keys': "first_seen_by id (paths @ [x]) = keys @ [x]"
        using False by (simp add: first_seen_by_snoc keys_def)
      have rhs: "dedupe_spec norm (paths @ [x]) =
          (uniq, mm @ [(x, slot_name (Some (index_of ns (norm x))))], kept)"
        unfolding dedupe_spec_def Let_def k keys'
        by (simp add: uniq_def mm_def ns_def)
      show ?thesis unfolding spec lhs rhs ..
    qed
  next
    case False
    then have new: "norm x \<notin> set ns" by (simp add: set_ns)
    from False have notin: "x \<notin> set paths" by auto
    have k: "first_seen_by norm (paths @ [x]) = kept @ [x]"
      using False by (simp add: first_seen_by_snoc kept_def)
    have keys': "first_seen_by id (paths @ [x]) = keys @ [x]"
      using notin by (simp add: first_seen_by_snoc keys_def)
    have "norm x \<notin> fst ` set uniq"
      using new by (auto simp: uniq_def dest: set_zip_leftD)
    then have uniq': "AList.update (norm x) (length uniq) uniq = uniq @ [(norm x, length ns)]"
      by (simp add: update_fresh len_uniq)
    have look': "map_of (uniq @ [(norm x, length ns)]) (norm x) = Some (length ns)"
      using new by (simp add: map_add_def lookup)
    have mm': "AList.update x (slot_name (Some (length ns))) mm = mm @ [(x, slot_name (Some (length ns)))]"
      using notin keys_mm by (simp add: update_fresh)
    have lhs: "dedupe_step h resolveDir (uniq, mm, kept) x =
        (uniq @ [(norm x, length ns)], mm @ [(x, slot_name (Some (length ns)))], kept @ [x])"
      using new by (simp add: dedupe_step_def pn lookup Let_def uniq' map_add_def mm')
    have idx_old: "index_of (ns @ [norm x]) (norm p) = index_of ns (norm p)" if "p \<in> set keys" for p
    proof -
      from that have "norm p \<in> set ns" using set_keys set_ns by auto
      then show ?thesis by (rule index_of_append_in)
    qed
    have idx_new: "index_of (ns @ [norm x]) (norm x) = length ns"
      using new by (rule index_of_snoc_notin)
    have mm_eq: "map (\<lambda>p. (p, slot_name (Some (index_of (ns @ [norm x]) (norm p))))) (keys @ [x])
        = mm @ [(x, slot_name (Some (length ns)))]"
      using idx_old idx_new by (simp add: mm_def)
    have ns': "map norm (kept @ [x]) = ns @ [norm x]"
      by (simp add: ns_def)
    have zip': "zip (ns @ [norm x]) [0..<length (ns @ [norm x])] = uniq @ [(norm x, length ns)]"
      unfolding uniq_def by (rule zip_enumerate_snoc)
    have rhs: "dedupe_spec norm (paths @ [x]) =
        (uniq @ [(norm x, length ns)], mm @ [(x, slot_name (Some (length ns)))], kept @ [x])"
      unfolding dedupe_spec_def Let_def k keys' ns' zip' mm_eq ..
    show ?thesis unfolding spec lhs rhs ..
  qed
qed

lemma dedupe_eq_spec:
  "dedupe h resolveDir paths =
     dedupe_spec (\<lambda>p. Path_normalize h (resolveDir @ ''/'' @ p)) paths"
proof (induction paths rule: rev_induct)
  case Nil
  show ?case by (simp add: dedupe_def dedupe_spec_def)
next
  case (snoc x paths)
  have "dedupe h resolveDir (paths @ [x]) = dedupe_step h resolveDir (dedupe h resolveDir paths) x"
    by (simp add: dedupe_def)
  also have "\<dots> = dedupe_step h resolveDir
      (dedupe_spec (\<lambda>p. Path_normalize h (resolveDir @ ''/'' @ p)) paths) x"
    by (simp only: snoc)
  also have "\<dots> = dedupe_spec (\<lambda>p. Path_normalize h (resolveDir @ ''/'' @ p)) (paths @ [x])"
    by (rule dedupe_step_spec) (rule refl)
  finally show ?case .
qed

lemma import_line_nonempty: "import_line i p \<noteq> []"
  by (simp add: import_line_def)

lemma upt_shift_Cons: "[i..<i + Suc n] = i # [Suc i..<Suc i + n]"
  by (subst upt_rec) simp

lemma importString_from_eq:
  "importString_from i accum ps =
     (if ps = [] then accum
      else (if accum = [] then [] else accum @ [LF])
           @ join_sep [LF] (map2 import_line [i..<i + length ps] ps))"
proof (induction ps arbitrary: i accum)
  case Nil
  show ?case by simp
next
  case (Cons p ps)
  let ?acc = "(if accum \<noteq> [] then accum @ [LF] else accum) @ import_line i p"
  have ne: "?acc \<noteq> []" by (simp add: import_line_nonempty)
  have "importString_from i accum (p # ps) = importString_from (Suc i) ?acc ps"
    by simp
  also have "\<dots> = (if ps = [] then ?acc
      else ?acc @ [LF] @ join_sep [LF] (map2 import_line [Suc i..<Suc i + length ps] ps))"
    using Cons.IH [of "Suc i" ?acc] ne by simp
  also have "\<dots> = (if accum = [] then [] else accum @ [LF])
      @ join_sep [LF] (map2 import_line [i..<i + length (p # ps)] (p # ps))"
  proof (cases ps)
    case Nil
    then show ?thesis by simp
  next
    case (Cons q qs)
    have "[i..<i + length (p # q # qs)] = i # [Suc i..<Suc i + length (q # qs)]"
      using upt_shift_Cons [of i "length (q # qs)"] by simp
    moreover have "[Suc i..<Suc i + length (q # qs)] = Suc i # [Suc (Suc i)..<Suc (Suc i) + length qs]"
      using upt_shift_Cons [of "Suc i" "length qs"] by simp
    ultimately show ?thesis using Cons by simp
  qed
  finally show ?case by simp
qed

lemma importString_eq:
  "importString_from 0 [] ps = join_sep [LF] (map2 import_line [0..<length ps] ps)"
  using importString_from_eq [of 0 "[]" ps] by (cases ps) simp_all

lemma foldl_entries:
  "foldl (\<lambda>acc kv. acc @ [sq] @ fst kv @ [sq] @ '':'' @ snd kv @ '','') acc mm =
     acc @ concat (map (\<lambda>kv. ([sq] @ fst kv @ [sq] @ '':'' @ snd kv) @ '','') mm)"
  by (induction mm arbitrary: acc) simp_all

lemma concat_sep_join:
  "xs \<noteq> [] \<Longrightarrow> concat (map (\<lambda>x. f x @ sep) xs) = join_sep sep (map f xs) @ sep"
proof (induction xs)
  case Nil
  then show ?case by simp
next
  case (Cons x xs)
  then show ?case by (cases xs) simp_all
qed

lemma objectMapString_eq:
  assumes "mm \<noteq> []"
  shows "objectMapString mm =
           ''const _DynamicImportModuleMap = {''
           @ join_sep '','' (map (\<lambda>kv. [sq] @ fst kv @ [sq] @ '':'' @ snd kv) mm) @ ''};''"
proof -
  let ?entry = "\<lambda>kv. [sq] @ fst kv @ [sq] @ '':'' @ snd kv"
  let ?s = "foldl (\<lambda>acc kv. acc @ [sq] @ fst kv @ [sq] @ '':'' @ snd kv @ '','')
              ''const _DynamicImportModuleMap = {'' mm"
  have "?s = ''const _DynamicImportModuleMap = {'' @ concat (map (\<lambda>kv. ?entry kv @ '','') mm)"
    by (rule foldl_entries)
  also have "concat (map (\<lambda>kv. ?entry kv @ '','') mm) = join_sep '','' (map ?entry mm) @ '',''"
    using assms by (rule concat_sep_join)
  finally have s: "?s = (''const _DynamicImportModuleMap = {'' @ join_sep '','' (map ?entry mm)) @ '',''"
    by simp
  have "last ?s = CHR '',''" "butlast ?s = ''const _DynamicImportModuleMap = {'' @ join_sep '','' (map ?entry mm)"
    unfolding s by (simp_all only: last_snoc butlast_snoc)
  moreover have "?s \<noteq> []" unfolding s by simp
  ultimately show ?thesis
    unfolding objectMapString_def Let_def by (simp add: is_line_terminator_def)
qed

lemma digit_inj: "a < 10 \<Longrightarrow> b < 10 \<Longrightarrow> digit a = digit b \<Longrightarrow> a = b"
proof -
  assume a: "a < 10" "b < 10" "digit a = digit b"
  have "distinct ''0123456789''" by simp
  moreover have "a < length ''0123456789''" "b < length ''0123456789''" using a by simp_all
  ultimately show "a = b"
    using a(3) unfolding digit_def by (simp only: nth_eq_iff_index_eq)
qed

lemma string_of_nat_nonempty: "string_of_nat n \<noteq> []"
  by (subst string_of_nat.simps) simp

lemma string_of_nat_inj: "string_of_nat m = string_of_nat n \<Longrightarrow> m = n"
proof (induction m arbitrary: n rule: string_of_nat.induct)
  case (1 m)
  show ?case
  proof (cases "m < 10")
    case True
    then have m: "string_of_nat m = [digit m]" by simp
    show ?thesis
    proof (cases "n < 10")
      case True
      then have "string_of_nat n = [digit n]" by simp
      with m "1.prems" have "digit m = digit n" by simp
      with True \<open>m < 10\<close> show ?thesis by (rule_tac digit_inj)
    next
      case False
      then have "string_of_nat n = string_of_nat (n div 10) @ [digit (n mod 10)]"
        by (subst string_of_nat.simps) simp
      with m "1.prems" have "string_of_nat (n div 10) = []" by simp
      then show ?thesis using string_of_nat_nonempty by blast
    qed
  next
    case False
    then have m: "string_of_nat m = string_of_nat (m div 10) @ [digit (m mod 10)]"
      by (subst string_of_nat.simps) simp
    show ?thesis
    proof (cases "n < 10")
      case True
      then have "string_of_nat n = [digit n]" by simp
      with m "1.prems" have "string_of_nat (m div 10) = []" by simp
      then show ?thesis using string_of_nat_nonempty by blast
    next
      case nf: False
      then have "string_of_nat n = string_of_nat (n div 10) @ [digit (n mod 10)]"
        by (subst string_of_nat.simps) simp
      with m "1.prems" have eq: "string_of_nat (m div 10) = string_of_nat (n div 10)"
          "digit (m mod 10) = digit (n mod 10)" by simp_all
      from "1.IH" [OF False eq(1)] have "m div 10 = n div 10" .
      moreover from eq(2) have "m mod 10 = n mod 10"
        by (rule_tac digit_inj) simp_all
      ultimately show ?thesis by (metis div_mult_mod_eq)
    qed
  qed
qed

lemma slot_name_inj: "slot_name (Some j) = slot_name (Some k) \<Longrightarrow> j = k"
  by (simp add: slot_name_def string_of_nat_inj)

lemma dedupe_parts:
  assumes "dedupe h resolveDir paths = (uniq, mm, deduped)"
  shows "deduped = first_seen_by (normalize_in h resolveDir) paths"
    and "mm = map (\<lambda>p. (p, slot_name (Some (index_of (map (normalize_in h resolveDir) deduped)
                                              (normalize_in h resolveDir p)))))
                (first_seen_by id paths)"
proof -
  have n: "(\<lambda>p. Path_normalize h (resolveDir @ ''/'' @ p)) = normalize_in h resolveDir"
    by (rule ext) (simp add: normalize_in_def)
  from assms have s: "dedupe_spec (normalize_in h resolveDir) paths = (uniq, mm, deduped)"
    using dedupe_eq_spec [of h resolveDir paths] unfolding n by simp
  from s show d: "deduped = first_seen_by (normalize_in h resolveDir) paths"
    by (simp add: dedupe_spec_def Let_def)
  from s show "mm = map (\<lambda>p. (p, slot_name (Some (index_of (map (normalize_in h resolveDir) deduped)
                                              (normalize_in h resolveDir p)))))
                (first_seen_by id paths)"
    unfolding d by (simp add: dedupe_spec_def Let_def)
qed

lemma dedupe_lookup:
  assumes "dedupe h resolveDir paths = (uniq, mm, deduped)" and "p \<in> set paths"
  shows "map_of mm p = Some (slot_name (Some (index_of (map (normalize_in h resolveDir) deduped)
                                                (normalize_in h resolveDir p))))"
    and "index_of (map (normalize_in h resolveDir) deduped) (normalize_in h resolveDir p)
           < length deduped"
    and "normalize_in h resolveDir
           (deduped ! index_of (map (normalize_in h resolveDir) deduped)
                         (normalize_in h resolveDir p))
         = normalize_in h resolveDir p"
proof -
  let ?n = "normalize_in h resolveDir"
  note parts = dedupe_parts [OF assms(1)]
  from assms(2) have "p \<in> set (first_seen_by id paths)"
    by (simp add: set_first_seen_by_id)
  then show "map_of mm p = Some (slot_name (Some (index_of (map ?n deduped) (?n p))))"
    by (subst parts(2)) (simp add: map_of_map_restrict)
  have "?n ` set deduped = ?n ` set paths"
    unfolding parts(1) by (rule image_first_seen_by)
  with assms(2) have mem: "?n p \<in> set (map ?n deduped)" by auto
  from index_of_less [OF mem] show lt: "index_of (map ?n deduped) (?n p) < length deduped"
    by simp
  from nth_index_of [OF mem] lt
  show "?n (deduped ! index_of (map ?n deduped) (?n p)) = ?n p"
    by simp
qed


lemma dedupe_keys:
  assumes "dedupe h resolveDir paths = (uniq, mm, deduped)"
  shows "fst ` set mm = set paths"
proof -
  have "fst ` set mm = set (first_seen_by id paths)"
    by (subst dedupe_parts(2) [OF assms]) force
  then show ?thesis by (simp add: set_first_seen_by_id)
qed

lemma with_extensionless_eq:
  "with_extensionless found = found @ map (strip_suffix ''.js'') found"
  by (simp add: with_extensionless_def jsImportFilePaths_all)

lemma set_with_extensionless:
  "set (with_extensionless found) =
     set found \<union> strip_suffix ''.js'' ` {p \<in> set found. ends_with ''.js'' p}"
proof -
  have "strip_suffix ''.js'' p \<in> set found \<union> strip_suffix ''.js'' ` {p \<in> set found. ends_with ''.js'' p}"
    if "p \<in> set found" for p
    using that by (cases "ends_with ''.js'' p") (auto simp: strip_suffix_def)
  then show ?thesis
    unfolding with_extensionless_eq by auto
qed

lemma matchAll_import_full:
  "m \<in> set (matchAll_import s) \<Longrightarrow> fst m = ''import('' @ snd m @ '')''"
proof (induction s rule: matchAll_import.induct)
  case 1
  then show ?case by simp
next
  case (2 c cs)
  then show ?case
    by (auto simp: Let_def split: if_splits)
qed

lemma processMatch_queue_cases:
  assumes "processMatch h resolveDir config (t, q, g) m = (t', q', g')"
  shows "q' = q \<or>
         (q' = q @ [\<lparr>fullImport = fst m, pathString = [bq] @ destinationOf (snd m) @ [bq]\<rparr>]
          \<and> interp_test (destinationOf (snd m)))"
  using assms by (auto simp: processMatch_def Let_def split: if_splits)

lemma foldl_processMatch_queue:
  assumes "foldl (processMatch h resolveDir config) (t, q, g) ms = (t', q', g')"
      and "d \<in> set q'"
  shows "d \<in> set q \<or>
         (\<exists>m\<in>set ms. fullImport d = fst m
            \<and> pathString d = [bq] @ destinationOf (snd m) @ [bq]
            \<and> interp_test (destinationOf (snd m)))"
  using assms
proof (induction ms arbitrary: t q g)
  case Nil
  then show ?case by simp
next
  case (Cons m ms)
  obtain t1 q1 g1 where st: "processMatch h resolveDir config (t, q, g) m = (t1, q1, g1)"
    by (cases "processMatch h resolveDir config (t, q, g) m") auto
  with Cons.prems have "foldl (processMatch h resolveDir config) (t1, q1, g1) ms = (t', q', g')"
    by simp
  from Cons.IH [OF this Cons.prems(2)] have
    "d \<in> set q1 \<or> (\<exists>m\<in>set ms. fullImport d = fst m
            \<and> pathString d = [bq] @ destinationOf (snd m) @ [bq]
            \<and> interp_test (destinationOf (snd m)))" .
  then show ?case
  proof
    assume "d \<in> set q1"
    with processMatch_queue_cases [OF st] show ?thesis by auto
  next
    assume "\<exists>m\<in>set ms. fullImport d = fst m
            \<and> pathString d = [bq] @ destinationOf (snd m) @ [bq]
            \<and> interp_test (destinationOf (snd m))"
    then show ?thesis by auto
  qed
qed

lemma classify_queue:
  assumes "classify h fileContents resolveDir config = (fileContents1, importsToReplace, globImports)"
      and "d \<in> set importsToReplace"
  shows "\<exists>m\<in>set (matchAll_import fileContents).
           fullImport d = ''import('' @ snd m @ '')''
           \<and> pathString d = [bq] @ destinationOf (snd m) @ [bq]
           \<and> interp_test (destinationOf (snd m))"
proof -
  from foldl_processMatch_queue [OF assms(1) [unfolded classify_def] assms(2)]
  obtain m where "m \<in> set (matchAll_import fileContents)" "fullImport d = fst m"
      "pathString d = [bq] @ destinationOf (snd m) @ [bq]" "interp_test (destinationOf (snd m))"
    by auto
  with matchAll_import_full [of m fileContents] show ?thesis by auto
qed

lemma no_dollar_pattern_Cons:
  "c \<noteq> CHR ''$'' \<Longrightarrow> no_dollar_pattern (c # s) = no_dollar_pattern s"
  by (cases s) auto

lemma no_dollar_pattern_snoc:
  "no_dollar_pattern s \<Longrightarrow> c \<noteq> CHR ''$'' \<Longrightarrow> c \<noteq> CHR ''&'' \<Longrightarrow> c \<noteq> bq \<Longrightarrow> c \<noteq> sq
     \<Longrightarrow> no_dollar_pattern (s @ [c])"
  by (induction s rule: no_dollar_pattern.induct) auto

lemma no_dollar_pattern_call:
  assumes "no_dollar_pattern p"
  shows "no_dollar_pattern (''_DynamicImport('' @ p @ '')'')"
proof -
  have "no_dollar_pattern (p @ '')'')"
    using assms by (rule no_dollar_pattern_snoc) simp_all
  then show ?thesis
    by (simp add: no_dollar_pattern_Cons)
qed

lemma replace_queued_first:
  assumes "first_occurrence (fullImport d) t i" and "no_dollar_pattern (pathString d)"
  shows "replace_queued t d =
           take i t @ ''_DynamicImport('' @ pathString d @ '')'' @ drop (i + length (fullImport d)) t"
  unfolding replace_queued_def
  using replace_str_first_plain [OF assms(1) no_dollar_pattern_call [OF assms(2)]] by simp

lemma replaceImports_found:
  assumes "classify h fileContents resolveDir config = (fileContents1, importsToReplace, globImports)"
      and "promise_all (map (\<lambda>g. FastGlob h g resolveDir) globImports) = Inr found"
      and "concat found \<noteq> []"
      and "dedupe h resolveDir (with_extensionless (concat found)) = (uniq, moduleMap, deduped)"
  shows "replaceImports h fileContents resolveDir config =
           \<lparr>result = importString_from 0 [] deduped @ [LF] @ objectMapString moduleMap @ [LF]
                       @ importFunctionString @ [LF]
                       @ foldl replace_queued fileContents1 importsToReplace,
            globbed = map (\<lambda>g. (g, resolveDir)) globImports, logged = []\<rparr>"
proof -
  from assms(2,3) have "globImports \<noteq> []" by auto
  moreover have "with_extensionless (concat found) \<noteq> []"
    using assms(3) by (simp add: with_extensionless_Nil_iff)
  ultimately show ?thesis
    using assms by (simp add: replaceImports_def Let_def)
qed





text \<open>
  Claim C3, as amended. For every globbed path that ends in \<open>.js\<close>, the module map has the
  path without the extension as a further key. The alias is deduplicated by its own
  normalized path: it points at the slot of that path, which is the slot of the \<open>.js\<close>
  spelling only if the two normalize to the same path. The keys of the map are the globbed
  paths and the aliases of those ending in \<open>.js\<close>, so a path ending in \<open>.json\<close> gets no
  alias.
\<close>

theorem extensionless_alias_own_slot:
  assumes "dedupe h resolveDir (with_extensionless found) =
             (uniqueFilePathsMap, moduleMap, dedupedImportFilePaths)"
  shows "(p \<in> set found \<and> ends_with ''.js'' p \<longrightarrow>
           (\<exists>k<length dedupedImportFilePaths. \<exists>j<length dedupedImportFilePaths.
              map_of moduleMap p = Some (''_DynamicImportModule'' @ string_of_nat k)
              \<and> Path_normalize h (resolveDir @ ''/'' @ dedupedImportFilePaths ! k)
                  = Path_normalize h (resolveDir @ ''/'' @ p)
              \<and> map_of moduleMap (strip_suffix ''.js'' p)
                  = Some (''_DynamicImportModule'' @ string_of_nat j)
              \<and> Path_normalize h (resolveDir @ ''/'' @ dedupedImportFilePaths ! j)
                  = Path_normalize h (resolveDir @ ''/'' @ strip_suffix ''.js'' p)
              \<and> ((j = k) = (Path_normalize h (resolveDir @ ''/'' @ strip_suffix ''.js'' p)
                              = Path_normalize h (resolveDir @ ''/'' @ p)))))
       \<and> fst ` set moduleMap =
           set found \<union> strip_suffix ''.js'' ` {p \<in> set found. ends_with ''.js'' p}"
proof (rule conjI)
  let ?n = "normalize_in h resolveDir"
  let ?ns = "map ?n dedupedImportFilePaths"
  show "p \<in> set found \<and> ends_with ''.js'' p \<longrightarrow>
           (\<exists>k<length dedupedImportFilePaths. \<exists>j<length dedupedImportFilePaths.
              map_of moduleMap p = Some (''_DynamicImportModule'' @ string_of_nat k)
              \<and> Path_normalize h (resolveDir @ ''/'' @ dedupedImportFilePaths ! k)
                  = Path_normalize h (resolveDir @ ''/'' @ p)
              \<and> map_of moduleMap (strip_suffix ''.js'' p)
                  = Some (''_DynamicImportModule'' @ string_of_nat j)
              \<and> Path_normalize h (resolveDir @ ''/'' @ dedupedImportFilePaths ! j)
                  = Path_normalize h (resolveDir @ ''/'' @ strip_suffix ''.js'' p)
              \<and> ((j = k) = (Path_normalize h (resolveDir @ ''/'' @ strip_suffix ''.js'' p)
                              = Path_normalize h (resolveDir @ ''/'' @ p))))"
  proof
    assume a: "p \<in> set found \<and> ends_with ''.js'' p"
    let ?q = "strip_suffix ''.js'' p"
    let ?k = "index_of ?ns (?n p)"
    let ?j = "index_of ?ns (?n ?q)"
    from a have p: "p \<in> set (with_extensionless found)"
      by (simp add: with_extensionless_eq)
    from a have q: "?q \<in> set (with_extensionless found)"
      by (simp add: with_extensionless_eq)
    note lp = dedupe_lookup [OF assms p]
    note lq = dedupe_lookup [OF assms q]
    have c1: "map_of moduleMap p = Some (''_DynamicImportModule'' @ string_of_nat ?k)"
      using lp(1) by (simp add: slot_name_def)
    have c2: "Path_normalize h (resolveDir @ ''/'' @ dedupedImportFilePaths ! ?k)
                  = Path_normalize h (resolveDir @ ''/'' @ p)"
      using lp(3) by (simp add: normalize_in_def)
    have c3: "map_of moduleMap ?q = Some (''_DynamicImportModule'' @ string_of_nat ?j)"
      using lq(1) by (simp add: slot_name_def)
    have c4: "Path_normalize h (resolveDir @ ''/'' @ dedupedImportFilePaths ! ?j)
                  = Path_normalize h (resolveDir @ ''/'' @ ?q)"
      using lq(3) by (simp add: normalize_in_def)
    have c5: "(?j = ?k) = (Path_normalize h (resolveDir @ ''/'' @ ?q)
                              = Path_normalize h (resolveDir @ ''/'' @ p))"
    proof
      assume "?j = ?k"
      with c2 c4 show "Path_normalize h (resolveDir @ ''/'' @ ?q)
                              = Path_normalize h (resolveDir @ ''/'' @ p)" by simp
    next
      assume "Path_normalize h (resolveDir @ ''/'' @ ?q)
                              = Path_normalize h (resolveDir @ ''/'' @ p)"
      then have "?n ?q = ?n p" by (simp add: normalize_in_def)
      then show "?j = ?k" by simp
    qed
    from lp(2) lq(2) c1 c2 c3 c4 c5
    show "\<exists>k<length dedupedImportFilePaths. \<exists>j<length dedupedImportFilePaths.
              map_of moduleMap p = Some (''_DynamicImportModule'' @ string_of_nat k)
              \<and> Path_normalize h (resolveDir @ ''/'' @ dedupedImportFilePaths ! k)
                  = Path_normalize h (resolveDir @ ''/'' @ p)
              \<and> map_of moduleMap (strip_suffix ''.js'' p)
                  = Some (''_DynamicImportModule'' @ string_of_nat j)
              \<and> Path_normalize h (resolveDir @ ''/'' @ dedupedImportFilePaths ! j)
                  = Path_normalize h (resolveDir @ ''/'' @ strip_suffix ''.js'' p)
              \<and> ((j = k) = (Path_normalize h (resolveDir @ ''/'' @ strip_suffix ''.js'' p)
                              = Path_normalize h (resolveDir @ ''/'' @ p)))"
      by blast
  qed
next
  show "fst ` set moduleMap =
           set found \<union> strip_suffix ''.js'' ` {p \<in> set found. ends_with ''.js'' p}"
    using dedupe_keys [OF assms] by (simp only: set_with_extensionless)
qed

text \<open>
  The claim as it was written has both spellings point at one slot. On the POSIX host the
  alias \<open>mod-a\<close> normalizes to \<open>/d/mod-a\<close>, not to \<open>/d/mod-a.js\<close>, and gets slot 1 and a
  static import of its own.
\<close>

theorem extensionless_alias_own_slot_counterexample:
  "dedupe (posix_host glob_fails no_files) ''/d'' (with_extensionless [''mod-a.js'']) =
     ([(''/d/mod-a.js'', 0), (''/d/mod-a'', Suc 0)],
      [(''mod-a.js'', ''_DynamicImportModule0''), (''mod-a'', ''_DynamicImportModule1'')],
      [''mod-a.js'', ''mod-a''])"
  by code_simp

lemma alias_example:
  "dedupe (posix_host glob_fails no_files) ''/d'' (with_extensionless [''mod-a.js'', ''data.json'']) =
     ([(''/d/mod-a.js'', 0), (''/d/data.json'', Suc 0), (''/d/mod-a'', Suc (Suc 0))],
      [(''mod-a.js'', ''_DynamicImportModule0''), (''data.json'', ''_DynamicImportModule1''),
       (''mod-a'', ''_DynamicImportModule2'')],
      [''mod-a.js'', ''data.json'', ''mod-a''])"
  by code_simp

theorem extensionless_alias_own_slot_witness:
  "fst ` set [(''mod-a.js'', ''_DynamicImportModule0''), (''data.json'', ''_DynamicImportModule1''),
              (''mod-a'', ''_DynamicImportModule2'')]
     = set [''mod-a.js'', ''data.json'']
       \<union> strip_suffix ''.js'' ` {p \<in> set [''mod-a.js'', ''data.json'']. ends_with ''.js'' p}
   \<and> (\<exists>k<length [''mod-a.js'', ''data.json'', ''mod-a''].
        \<exists>j<length [''mod-a.js'', ''data.json'', ''mod-a''].
          map_of [(''mod-a.js'', ''_DynamicImportModule0''), (''data.json'', ''_DynamicImportModule1''),
                  (''mod-a'', ''_DynamicImportModule2'')] ''mod-a.js''
            = Some (''_DynamicImportModule'' @ string_of_nat k)
          \<and> map_of [(''mod-a.js'', ''_DynamicImportModule0''), (''data.json'', ''_DynamicImportModule1''),
                  (''mod-a'', ''_DynamicImportModule2'')] (strip_suffix ''.js'' ''mod-a.js'')
            = Some (''_DynamicImportModule'' @ string_of_nat j)
          \<and> j \<noteq> k)"
proof -
  have "''mod-a.js'' \<in> set [''mod-a.js'', ''data.json''] \<and> ends_with ''.js'' ''mod-a.js''"
    by code_simp
  moreover have "Path_normalize (posix_host glob_fails no_files)
        (''/d'' @ ''/'' @ strip_suffix ''.js'' ''mod-a.js'')
      \<noteq> Path_normalize (posix_host glob_fails no_files) (''/d'' @ ''/'' @ ''mod-a.js'')"
    by code_simp
  ultimately show ?thesis
    using extensionless_alias_own_slot [OF alias_example, of "''mod-a.js''"] by blast
qed

text \<open>
  Claim C1, as amended. When the globs of the queued imports resolve and find a path, the
  text that comes back is: one static import per slot, named \<open>_DynamicImportModule<N>\<close>
  with \<open>N\<close> the position of the slot among the distinct normalized paths in the order
  in which they were first seen; the object \<open>_DynamicImportModuleMap\<close>, which maps every
  spelling (in first-seen order) to the identifier of the slot of its normalized path; the
  function \<open>_DynamicImport\<close>; and the text left by the first loop, in which, for every
  queued import in turn, the first occurrence of its call text, if there still is one, is
  replaced by \<open>_DynamicImport(<template>)\<close> with the queued template (for a template in
  which no \<open>$\<close> starts a replacement pattern). Every queued import is a match of the
  incoming text whose destination holds an interpolation.
\<close>

theorem module_map_and_lookup_calls:
  assumes "classify h fileContents resolveDir config = (fileContents1, importsToReplace, globImports)"
      and "promise_all (map (\<lambda>g. FastGlob h g resolveDir) globImports) = Inr found"
      and "concat found \<noteq> []"
  shows "(let paths = with_extensionless (concat found);
              slots = first_seen_by (normalize_in h resolveDir) paths
          in result (replaceImports h fileContents resolveDir config) =
               join_sep [LF] (map2 import_line [0..<length slots] slots) @ [LF]
               @ ''const _DynamicImportModuleMap = {''
               @ join_sep '',''
                   (map (\<lambda>p. [sq] @ p @ [sq] @ '':_DynamicImportModule''
                              @ string_of_nat (index_of (map (normalize_in h resolveDir) slots)
                                                 (normalize_in h resolveDir p)))
                      (first_seen_by id paths))
               @ ''};'' @ [LF]
               @ importFunctionString @ [LF]
               @ foldl replace_queued fileContents1 importsToReplace)
       \<and> (\<forall>j<length importsToReplace. \<forall>i.
             first_occurrence (fullImport (importsToReplace ! j))
               (foldl replace_queued fileContents1 (take j importsToReplace)) i
             \<and> no_dollar_pattern (pathString (importsToReplace ! j)) \<longrightarrow>
             foldl replace_queued fileContents1 (take (Suc j) importsToReplace) =
               take i (foldl replace_queued fileContents1 (take j importsToReplace))
               @ ''_DynamicImport('' @ pathString (importsToReplace ! j) @ '')''
               @ drop (i + length (fullImport (importsToReplace ! j)))
                   (foldl replace_queued fileContents1 (take j importsToReplace)))
       \<and> (\<forall>d\<in>set importsToReplace. \<exists>m\<in>set (matchAll_import fileContents).
             fullImport d = ''import('' @ snd m @ '')''
             \<and> pathString d = [bq] @ destinationOf (snd m) @ [bq]
             \<and> interp_test (destinationOf (snd m)))"
proof (intro conjI)
  let ?n = "normalize_in h resolveDir"
  let ?paths = "with_extensionless (concat found)"
  obtain uniq mm deduped where d: "dedupe h resolveDir ?paths = (uniq, mm, deduped)"
    by (cases "dedupe h resolveDir ?paths") auto
  note parts = dedupe_parts [OF d]
  have "?paths \<noteq> []" using assms(3) by (simp add: with_extensionless_Nil_iff)
  then have "set ?paths \<noteq> {}" by simp
  then have "mm \<noteq> []" using dedupe_keys [OF d] by auto
  from objectMapString_eq [OF this]
  have o: "objectMapString mm = ''const _DynamicImportModuleMap = {''
      @ join_sep '',''
          (map (\<lambda>p. [sq] @ p @ [sq] @ '':_DynamicImportModule''
                     @ string_of_nat (index_of (map ?n deduped) (?n p)))
             (first_seen_by id ?paths))
      @ ''};''"
    by (subst (asm) (2) parts(2)) (simp add: o_def slot_name_def)
  have "result (replaceImports h fileContents resolveDir config) =
      importString_from 0 [] deduped @ [LF] @ objectMapString mm @ [LF]
      @ importFunctionString @ [LF] @ foldl replace_queued fileContents1 importsToReplace"
    using replaceImports_found [OF assms d] by simp
  then show "(let paths = with_extensionless (concat found);
              slots = first_seen_by (normalize_in h resolveDir) paths
          in result (replaceImports h fileContents resolveDir config) =
               join_sep [LF] (map2 import_line [0..<length slots] slots) @ [LF]
               @ ''const _DynamicImportModuleMap = {''
               @ join_sep '',''
                   (map (\<lambda>p. [sq] @ p @ [sq] @ '':_DynamicImportModule''
                              @ string_of_nat (index_of (map (normalize_in h resolveDir) slots)
                                                 (normalize_in h resolveDir p)))
                      (first_seen_by id paths))
               @ ''};'' @ [LF]
               @ importFunctionString @ [LF]
               @ foldl replace_queued fileContents1 importsToReplace)"
    unfolding Let_def parts(1) [symmetric] o importString_eq by simp
next
  show "\<forall>j<length importsToReplace. \<forall>i.
             first_occurrence (fullImport (importsToReplace ! j))
               (foldl replace_queued fileContents1 (take j importsToReplace)) i
             \<and> no_dollar_pattern (pathString (importsToReplace ! j)) \<longrightarrow>
             foldl replace_queued fileContents1 (take (Suc j) importsToReplace) =
               take i (foldl replace_queued fileContents1 (take j importsToReplace))
               @ ''_DynamicImport('' @ pathString (importsToReplace ! j) @ '')''
               @ drop (i + length (fullImport (importsToReplace ! j)))
                   (foldl replace_queued fileContents1 (take j importsToReplace))"
  proof (intro allI impI)
    fix j i
    assume j: "j < length importsToReplace"
    assume a: "first_occurrence (fullImport (importsToReplace ! j))
               (foldl replace_queued fileContents1 (take j importsToReplace)) i
             \<and> no_dollar_pattern (pathString (importsToReplace ! j))"
    have "foldl replace_queued fileContents1 (take (Suc j) importsToReplace) =
        replace_queued (foldl replace_queued fileContents1 (take j importsToReplace))
          (importsToReplace ! j)"
      using j by (simp add: take_Suc_conv_app_nth)
    also have "\<dots> = take i (foldl replace_queued fileContents1 (take j importsToReplace))
               @ ''_DynamicImport('' @ pathString (importsToReplace ! j) @ '')''
               @ drop (i + length (fullImport (importsToReplace ! j)))
                   (foldl replace_queued fileContents1 (take j importsToReplace))"
      using a by (intro replace_queued_first) blast+
    finally show "foldl replace_queued fileContents1 (take (Suc j) importsToReplace) =
               take i (foldl replace_queued fileContents1 (take j importsToReplace))
               @ ''_DynamicImport('' @ pathString (importsToReplace ! j) @ '')''
               @ drop (i + length (fullImport (importsToReplace ! j)))
                   (foldl replace_queued fileContents1 (take j importsToReplace))" .
  qed
next
  show "\<forall>d\<in>set importsToReplace. \<exists>m\<in>set (matchAll_import fileContents).
             fullImport d = ''import('' @ snd m @ '')''
             \<and> pathString d = [bq] @ destinationOf (snd m) @ [bq]
             \<and> interp_test (destinationOf (snd m))"
    using classify_queue [OF assms(1)] by blast
qed

text \<open>
  The claim as it was written says that every queued call is replaced. Here the first
  import is queued, but the rewrite of the second import to an absolute path lands inside
  the first one (its argument's text occurs there first); the queued call text is then no
  longer in the text, and no call of \<open>_DynamicImport\<close> appears in the output.
\<close>

theorem module_map_and_lookup_calls_counterexample:
  "classify (posix_host (glob_finds [''x.js'']) no_files)
      ''import(`${'a.json'}.js`);import('a.json')'' ''/d'' only_js =
     (''import(`${`/d/a.json`}.js`);import('a.json')'',
      [\<lparr>fullImport = ''import(`${'a.json'}.js`)'', pathString = ''`${'a.json'}.js`''\<rparr>],
      [''**/*.js''])
   \<and> result (replaceImports (posix_host (glob_finds [''x.js'']) no_files)
               ''import(`${'a.json'}.js`);import('a.json')'' ''/d'' only_js) =
     ''import * as _DynamicImportModule0 from 'x.js';'' @ [LF]
     @ ''import * as _DynamicImportModule1 from 'x';'' @ [LF]
     @ ''const _DynamicImportModuleMap = {'x.js':_DynamicImportModule0,'x':_DynamicImportModule1};'' @ [LF]
     @ importFunctionString @ [LF]
     @ ''import(`${`/d/a.json`}.js`);import('a.json')''"
  by code_simp

lemma spec_example_classify:
  "classify (posix_host (glob_finds [''mod-a.js'', ''mod-b.js'']) no_files)
      ''load(import(`./mod-${x}.js`))'' ''/a/b'' only_js =
     (''load(import(`./mod-${x}.js`))'',
      [\<lparr>fullImport = ''import(`./mod-${x}.js`)'', pathString = ''`./mod-${x}.js`''\<rparr>],
      [''./mod-**/*.js''])"
  by code_simp

lemma spec_example_glob:
  "promise_all (map (\<lambda>g. FastGlob (posix_host (glob_finds [''mod-a.js'', ''mod-b.js'']) no_files)
                          g ''/a/b'') [''./mod-**/*.js''])
     = Inr [[''mod-a.js'', ''mod-b.js'']]"
  by code_simp

theorem module_map_and_lookup_calls_witness:
  "result (replaceImports (posix_host (glob_finds [''mod-a.js'', ''mod-b.js'']) no_files)
             ''load(import(`./mod-${x}.js`))'' ''/a/b'' only_js) =
     ''import * as _DynamicImportModule0 from 'mod-a.js';'' @ [LF]
     @ ''import * as _DynamicImportModule1 from 'mod-b.js';'' @ [LF]
     @ ''import * as _DynamicImportModule2 from 'mod-a';'' @ [LF]
     @ ''import * as _DynamicImportModule3 from 'mod-b';'' @ [LF]
     @ ''const _DynamicImportModuleMap = {'mod-a.js':_DynamicImportModule0,'mod-b.js':_DynamicImportModule1,'mod-a':_DynamicImportModule2,'mod-b':_DynamicImportModule3};'' @ [LF]
     @ importFunctionString @ [LF]
     @ ''load(_DynamicImport(`./mod-${x}.js`))''"
proof -
  let ?h = "posix_host (glob_finds [''mod-a.js'', ''mod-b.js'']) no_files"
  let ?q = "[\<lparr>fullImport = ''import(`./mod-${x}.js`)'', pathString = ''`./mod-${x}.js`''\<rparr>]"
  let ?t = "''load(import(`./mod-${x}.js`))''"
  have ne: "concat [[''mod-a.js'', ''mod-b.js'']] \<noteq> []" by simp
  note inst = module_map_and_lookup_calls [OF spec_example_classify spec_example_glob ne]
  have occ: "first_occurrence (fullImport (?q ! 0)) (foldl replace_queued ?t (take 0 ?q)) 5
      \<and> no_dollar_pattern (pathString (?q ! 0))"
    by code_simp
  have "foldl replace_queued ?t (take (Suc 0) ?q) =
      take 5 (foldl replace_queued ?t (take 0 ?q))
      @ ''_DynamicImport('' @ pathString (?q ! 0) @ '')''
      @ drop (5 + length (fullImport (?q ! 0))) (foldl replace_queued ?t (take 0 ?q))"
    using inst [THEN conjunct2, THEN conjunct1, rule_format, of 0 5] occ by simp
  also have "\<dots> = ''load(_DynamicImport(`./mod-${x}.js`))''"
    by code_simp
  finally have body: "foldl replace_queued ?t ?q = ''load(_DynamicImport(`./mod-${x}.js`))''"
    by simp
  have "result (replaceImports ?h ?t ''/a/b'' only_js) =
      (let paths = with_extensionless (concat [[''mod-a.js'', ''mod-b.js'']]);
           slots = first_seen_by (normalize_in ?h ''/a/b'') paths
       in join_sep [LF] (map2 import_line [0..<length slots] slots) @ [LF]
          @ ''const _DynamicImportModuleMap = {''
          @ join_sep '',''
              (map (\<lambda>p. [sq] @ p @ [sq] @ '':_DynamicImportModule''
                         @ string_of_nat (index_of (map (normalize_in ?h ''/a/b'') slots)
                                            (normalize_in ?h ''/a/b'' p)))
                 (first_seen_by id paths))
          @ ''};'' @ [LF]
          @ importFunctionString @ [LF]) @ foldl replace_queued ?t ?q"
    using inst [THEN conjunct1] by (simp add: Let_def)
  also have "(let paths = with_extensionless (concat [[''mod-a.js'', ''mod-b.js'']]);
           slots = first_seen_by (normalize_in ?h ''/a/b'') paths
       in join_sep [LF] (map2 import_line [0..<length slots] slots) @ [LF]
          @ ''const _DynamicImportModuleMap = {''
          @ join_sep '',''
              (map (\<lambda>p. [sq] @ p @ [sq] @ '':_DynamicImportModule''
                         @ string_of_nat (index_of (map (normalize_in ?h ''/a/b'') slots)
                                            (normalize_in ?h ''/a/b'' p)))
                 (first_seen_by id paths))
          @ ''};'' @ [LF]
          @ importFunctionString @ [LF]) =
     ''import * as _DynamicImportModule0 from 'mod-a.js';'' @ [LF]
     @ ''import * as _DynamicImportModule1 from 'mod-b.js';'' @ [LF]
     @ ''import * as _DynamicImportModule2 from 'mod-a';'' @ [LF]
     @ ''import * as _DynamicImportModule3 from 'mod-b';'' @ [LF]
     @ ''const _DynamicImportModuleMap = {'mod-a.js':_DynamicImportModule0,'mod-b.js':_DynamicImportModule1,'mod-a':_DynamicImportModule2,'mod-b':_DynamicImportModule3};'' @ [LF]
     @ importFunctionString @ [LF]"
    by code_simp
  finally show ?thesis unfolding body by simp
qed

section \<open>Running the rewriter twice\<close>

text \<open>
  Claim C9. Rewriting \<open>import('./foo.json')\<close> in \<open>/a/b\<close> gives the absolute path; a second
  run over that output does not leave it alone but puts the directory in front once more.
  The \<open>.js\<close> rewrite is guarded by \<open>!Path.isAbsolute(destinationFile)\<close> and is stable; the
  \<open>.json\<close> alternative of the same condition is not guarded.
\<close>

theorem json_rewrite_not_idempotent:
  "result (replaceImports (posix_host glob_fails no_files) ''import('./foo.json')'' ''/a/b'' only_js)
     = ''import(`/a/b/foo.json`)''
   \<and> result (replaceImports (posix_host glob_fails no_files) ''import(`/a/b/foo.json`)'' ''/a/b'' only_js)
     = ''import(`/a/b/a/b/foo.json`)''
   \<and> result (replaceImports (posix_host glob_fails no_files) ''import('./foo.js')'' ''/a/b'' absolutize)
     = ''import(`/a/b/foo.js`)''
   \<and> result (replaceImports (posix_host glob_fails no_files) ''import(`/a/b/foo.js`)'' ''/a/b'' absolutize)
     = ''import(`/a/b/foo.js`)''"
  by code_simp

end
